theory Spec2Isabelle
  imports Main
begin

section \<open>The Reversi engine of \<open>reversi.py\<close>\<close>

text \<open>
  The class \<open>Reversi\<close> is embedded as a record of its attributes and one HOL
  function per method.  Python exceptions are values of \<open>error\<close>; a method that
  only reads the object returns \<open>error + 'a\<close>, a method that assigns to an attribute
  returns its result together with the object as the method leaves it (also when it
  raises), so that what an exception leaves behind is part of the model.
\<close>

subsection \<open>Data\<close>

text \<open>
  The exceptions the engine can raise.  A \<open>ValueError\<close> carries the message the source
  gives it, which tells the checks of one method apart.
\<close>

datatype error = ValueError string | IndexError | ZeroDivisionError

definition msg_parity :: string where
  "msg_parity = ''Parity of side and players is incorrect''"

definition msg_othello :: string where
  "msg_othello = ''Othello game can only have 2 players''"

definition msg_size :: string where
  "msg_size = ''Size of board must be larger than 2 cells per side''"

definition msg_bounds :: string where
  "msg_bounds = ''Specified position is outside the bounds of the board''"

definition msg_turn :: string where
  "msg_turn = ''Value of turn is inconsistent with the number of players''"

definition msg_length :: string where
  "msg_length = ''Length of inputted grid is inconsistent with current grid size''"

definition msg_sim_bounds :: string where
  "msg_sim_bounds = ''Specified position is outside the bounds ofthe board''"

definition msg_occupied :: string where
  "msg_occupied = ''There is already a piece at this location''"

type_synonym pos = "int \<times> int"

text \<open>A cell is \<open>Optional[int]\<close>; a board is \<open>BoardGridType\<close>, a list of rows.\<close>

type_synonym cell = "int option"

type_synonym board = "cell list list"

text \<open>
  \<open>_grid\<close> is a list of references to row lists, and two of its slots may refer to
  one row: \<open>[row] * 4\<close> has four slots and one row object.  \<open>grid\<close> gives, slot
  by slot, what the row in that slot holds; \<open>row_ids\<close> gives the identity of the row
  object in each slot.  Slots with the same identity are one list, so a write through
  one of them is read through all of them.
\<close>

record reversi =
  side :: int
  players :: int
  othello :: bool
  grid :: board
  turn :: int
  row_ids :: "nat list"

text \<open>
  The source writes \<open>directions\<close> as a literal list of eight tuples and passes only
  elements of that list to \<open>_check_direction\<close>; the type below has exactly these
  eight values, in the order of the list, and \<open>shift\<close> gives each its tuple.
\<close>

datatype direction = Dir_S | Dir_N | Dir_E | Dir_W | Dir_SE | Dir_NE | Dir_SW | Dir_NW

fun shift :: "direction \<Rightarrow> int \<times> int" where
  "shift Dir_S = (1, 0)"
| "shift Dir_N = (-1, 0)"
| "shift Dir_E = (0, 1)"
| "shift Dir_W = (0, -1)"
| "shift Dir_SE = (1, 1)"
| "shift Dir_NE = (-1, 1)"
| "shift Dir_SW = (1, -1)"
| "shift Dir_NW = (-1, -1)"

definition directions :: "direction list" where
  "directions = [Dir_S, Dir_N, Dir_E, Dir_W, Dir_SE, Dir_NE, Dir_SW, Dir_NW]"

subsection \<open>Python list subscripts\<close>

text \<open>
  \<open>xs[i]\<close> reads from the end for a negative \<open>i\<close> and raises \<open>IndexError\<close> outside
  \<open>[-len, len)\<close>; \<open>xs[i] = v\<close> finds its slot by the same rule (\<open>py_slot\<close>).
\<close>

definition py_slot :: "'a list \<Rightarrow> int \<Rightarrow> nat option" where
  "py_slot xs i =
     (if 0 \<le> i \<and> i < int (length xs) then Some (nat i)
      else if i < 0 \<and> - int (length xs) \<le> i then Some (nat (int (length xs) + i))
      else None)"

definition py_get :: "'a list \<Rightarrow> int \<Rightarrow> error + 'a" where
  "py_get xs i = (case py_slot xs i of None \<Rightarrow> Inl IndexError | Some k \<Rightarrow> Inr (xs ! k))"

text \<open>\<open>g[r][c]\<close> on a list of rows.\<close>

definition grid_get :: "board \<Rightarrow> int \<Rightarrow> int \<Rightarrow> error + cell" where
  "grid_get g r c = (case py_get g r of Inl e \<Rightarrow> Inl e | Inr row \<Rightarrow> py_get row c)"

text \<open>
  \<open>g[r][c] = v\<close> subscripts the list of rows (slot \<open>k\<close>) and then assigns to item
  \<open>l\<close> of the row object found there.  The list of rows itself is not assigned to;
  the row object is changed in place, and the change shows in every slot that holds this
  object: slot \<open>k\<close> and the slots with the identity of slot \<open>k\<close>.
\<close>

definition same_object :: "nat list \<Rightarrow> nat \<Rightarrow> nat \<Rightarrow> bool" where
  "same_object ids i k = (i = k \<or> (i < length ids \<and> k < length ids \<and> ids ! i = ids ! k))"

definition grid_set :: "board \<Rightarrow> nat list \<Rightarrow> int \<Rightarrow> int \<Rightarrow> cell \<Rightarrow> error + board" where
  "grid_set g ids r c v =
     (case py_slot g r of
        None \<Rightarrow> Inl IndexError
      | Some k \<Rightarrow>
          (case py_slot (g ! k) c of
             None \<Rightarrow> Inl IndexError
           | Some l \<Rightarrow>
               Inr (map (\<lambda>i. if same_object ids i k then (g ! i)[l := v] else g ! i)
                      [0..<length g])))"

subsection \<open>Construction\<close>

text \<open>
  \<open>Reversi.__init__\<close>: the grid is allocated first (\<open>range\<close> and \<open>[None] * side\<close> of
  a negative \<open>side\<close> are empty), then the three checks in the source's order, then the
  Othello seed, then \<open>turn = 1\<close>.  The comprehension
  \<open>[[None] * side for _ in range(side)]\<close> evaluates \<open>[None] * side\<close> once for each
  slot: the rows are \<open>side\<close> different objects, numbered here in the order of the slots.
\<close>

fun set_cells :: "board \<Rightarrow> nat list \<Rightarrow> (pos \<times> cell) list \<Rightarrow> error + board" where
  "set_cells g ids [] = Inr g"
| "set_cells g ids (((r, c), v) # rest) =
     (case grid_set g ids r c v of Inl e \<Rightarrow> Inl e | Inr g' \<Rightarrow> set_cells g' ids rest)"

definition Reversi_init :: "int \<Rightarrow> int \<Rightarrow> bool \<Rightarrow> error + reversi" where
  "Reversi_init sd pl oth =
     (let g = replicate (nat sd) (replicate (nat sd) (None :: cell));
          ids = [0..<nat sd] in
      if pl mod 2 \<noteq> int (length g) mod 2 then Inl (ValueError msg_parity)
      else if oth \<and> pl \<noteq> 2 then Inl (ValueError msg_othello)
      else if length g < 3 then Inl (ValueError msg_size)
      else if oth then
        (let bot_right_center = sd div 2 in
         case set_cells g ids
                [((bot_right_center, bot_right_center), Some 2),
                 ((bot_right_center - 1, bot_right_center), Some 1),
                 ((bot_right_center - 1, bot_right_center - 1), Some 2),
                 ((bot_right_center, bot_right_center - 1), Some 1)] of
           Inl e \<Rightarrow> Inl e
         | Inr g' \<Rightarrow>
             Inr \<lparr>side = sd, players = pl, othello = oth, grid = g', turn = 1, row_ids = ids\<rparr>)
      else Inr \<lparr>side = sd, players = pl, othello = oth, grid = g, turn = 1, row_ids = ids\<rparr>)"

subsection \<open>Bounds, rays and the centre\<close>

definition in_bounds :: "reversi \<Rightarrow> pos \<Rightarrow> bool" where
  "in_bounds s p = (case p of (row, col) \<Rightarrow> 0 \<le> row \<and> row < side s \<and> 0 \<le> col \<and> col < side s)"

text \<open>
  The \<open>while\<close> loop of \<open>_check_direction\<close>.  Its state is the position being
  looked at and the piece read there; \<open>Inr None\<close> is the \<open>return None\<close> inside the
  loop, \<open>Inr (Some _)\<close> the state in which the loop condition fails.
\<close>

definition ray_room :: "reversi \<Rightarrow> direction \<Rightarrow> pos \<Rightarrow> nat" where
  "ray_room s d p =
     (case (shift d, p) of
        ((dr, dc), (r, c)) \<Rightarrow>
          if dr = 1 then nat (side s - r)
          else if dr = -1 then nat (r + 1)
          else if dc = 1 then nat (side s - c)
          else nat (c + 1))"

function check_walk :: "reversi \<Rightarrow> int \<Rightarrow> direction \<Rightarrow> pos \<Rightarrow> cell \<Rightarrow> error + (pos \<times> cell) option" where
  "check_walk s player d p loc_piece =
     (if loc_piece \<noteq> None \<and> loc_piece \<noteq> Some player then
        (let q = (fst p + fst (shift d), snd p + snd (shift d)) in
         if \<not> in_bounds s q then Inr None
         else
           (case grid_get (grid s) (fst q) (snd q) of
              Inl e \<Rightarrow> Inl e
            | Inr piece' \<Rightarrow> check_walk s player d q piece'))
      else Inr (Some (p, loc_piece)))"
  by pat_completeness auto

termination
proof (relation "measure (\<lambda>(s, player, d, p, loc_piece). ray_room s d p)")
  show "wf (measure (\<lambda>(s, player, d, p, loc_piece). ray_room s d p))"
    by simp
next
  fix s :: reversi and player :: int and d :: direction and p :: pos
    and loc_piece :: cell and q :: pos and piece' :: cell
  assume q: "q = (fst p + fst (shift d), snd p + snd (shift d))"
    and inb: "\<not> \<not> in_bounds s q"
  from q inb show "((s, player, d, q, piece'), (s, player, d, p, loc_piece))
      \<in> measure (\<lambda>(s, player, d, p, loc_piece). ray_room s d p)"
    by (cases d; cases p) (auto simp: ray_room_def in_bounds_def)
qed

declare check_walk.simps [simp del]

definition check_direction :: "reversi \<Rightarrow> int \<Rightarrow> pos \<Rightarrow> direction \<Rightarrow> error + pos option" where
  "check_direction s player p d =
     (let check = (fst p + fst (shift d), snd p + snd (shift d)) in
      if \<not> in_bounds s check then Inr None
      else
        (case grid_get (grid s) (fst check) (snd check) of
           Inl e \<Rightarrow> Inl e
         | Inr loc_piece \<Rightarrow>
             if loc_piece \<noteq> None \<and> loc_piece \<noteq> Some player then
               (case check_walk s player d check loc_piece of
                  Inl e \<Rightarrow> Inl e
                | Inr None \<Rightarrow> Inr None
                | Inr (Some (q, piece)) \<Rightarrow>
                    if in_bounds s q then
                      (if piece = Some player then Inr (Some q) else Inr None)
                    else Inr None)
             else Inr None))"

text \<open>\<open>_center_pieces\<close>: \<open>range(lo, hi)\<close> is \<open>[lo..hi - 1]\<close>.\<close>

definition center_pieces :: "reversi \<Rightarrow> pos list" where
  "center_pieces s =
     (let lo = (side s - players s) div 2;
          hi = side s - (side s - players s) div 2
      in concat (map (\<lambda>i. map (\<lambda>j. (i, j)) [lo..hi - 1]) [lo..hi - 1]))"

definition piece_at :: "reversi \<Rightarrow> pos \<Rightarrow> error + cell" where
  "piece_at s p =
     (if \<not> in_bounds s p then Inl (ValueError msg_bounds) else grid_get (grid s) (fst p) (snd p))"

subsection \<open>Legality\<close>

text \<open>The list comprehension \<open>[self.piece_at(sq) for sq in center_sqs]\<close>.\<close>

fun pieces_at :: "reversi \<Rightarrow> pos list \<Rightarrow> error + cell list" where
  "pieces_at s [] = Inr []"
| "pieces_at s (sq # sqs) =
     (case piece_at s sq of
        Inl e \<Rightarrow> Inl e
      | Inr v \<Rightarrow> (case pieces_at s sqs of Inl e \<Rightarrow> Inl e | Inr vs \<Rightarrow> Inr (v # vs)))"

text \<open>
  The loop \<open>for direction in directions\<close> that returns \<open>True\<close> at the first direction
  whose \<open>_check_direction\<close> is not \<open>None\<close>, and \<open>False\<close> after the last.
\<close>

fun any_capture :: "reversi \<Rightarrow> int \<Rightarrow> pos \<Rightarrow> direction list \<Rightarrow> error + bool" where
  "any_capture s player p [] = Inr False"
| "any_capture s player p (d # ds) =
     (case check_direction s player p d of
        Inl e \<Rightarrow> Inl e
      | Inr (Some move_loc) \<Rightarrow> Inr True
      | Inr None \<Rightarrow> any_capture s player p ds)"

text \<open>
  The scan of \<open>legal_move\<close> over \<open>enumerate(self._grid)\<close> returns in its first
  iteration that meets an occupied cell outside the centre; whether there is one decides
  the branch.
\<close>

definition outside_occupied :: "reversi \<Rightarrow> pos list \<Rightarrow> bool" where
  "outside_occupied s center_sqs =
     list_ex (\<lambda>(i, iter_row).
        list_ex (\<lambda>(j, iter_piece). (int i, int j) \<notin> set center_sqs \<and> iter_piece \<noteq> None)
          (enumerate 0 iter_row))
       (enumerate 0 (grid s))"

definition legal_move :: "reversi \<Rightarrow> pos \<Rightarrow> error + bool" where
  "legal_move s p =
     (if \<not> in_bounds s p then Inl (ValueError msg_bounds)
      else
        (case grid_get (grid s) (fst p) (snd p) of
           Inl e \<Rightarrow> Inl e
         | Inr here \<Rightarrow>
             if here \<noteq> None then Inr False
             else
               (let center_sqs = center_pieces s in
                case pieces_at s center_sqs of
                  Inl e \<Rightarrow> Inl e
                | Inr vs \<Rightarrow>
                    if None \<in> set vs then
                      (if outside_occupied s center_sqs
                       then any_capture s (turn s) p directions
                       else Inr (p \<in> set center_sqs \<and> here = None))
                    else any_capture s (turn s) p directions)))"

text \<open>
  \<open>available_moves\<close> visits \<open>(i, j)\<close> for every row \<open>i\<close> of the grid and every
  index \<open>j\<close> of that row.  The source collects the legal ones in a set and returns
  \<open>list(moves)\<close>, whose order Python does not fix; the model lists them in scan order
  (the positions are distinct, so nothing is lost).
\<close>

definition scan_positions :: "board \<Rightarrow> pos list" where
  "scan_positions g =
     concat (map (\<lambda>(i, row). map (\<lambda>j. (int i, int j)) [0..<length row]) (enumerate 0 g))"

fun collect_moves :: "reversi \<Rightarrow> pos list \<Rightarrow> error + pos list" where
  "collect_moves s [] = Inr []"
| "collect_moves s (p # ps) =
     (case legal_move s p of
        Inl e \<Rightarrow> Inl e
      | Inr ok \<Rightarrow>
          (case collect_moves s ps of
             Inl e \<Rightarrow> Inl e
           | Inr ms \<Rightarrow> Inr (if ok then p # ms else ms)))"

definition available_moves :: "reversi \<Rightarrow> error + pos list" where
  "available_moves s = collect_moves s (scan_positions (grid s))"

subsection \<open>Loading a game\<close>

text \<open>
  \<open>load_game\<close>: three checks, each raising \<open>ValueError\<close>, then the two assignments.
  The row count is compared with \<open>len(self._grid)\<close>; the check of the items raises
  with the message of the check of the turn.  The argument \<open>grid\<close> is a list object
  of the caller's: \<open>g\<close> is what its rows hold and \<open>ids\<close> are the identities of its
  rows.  \<open>self._grid = grid\<close> keeps that very list, copying nothing, so the engine
  has the caller's rows with the sharing the caller gave them.
\<close>

definition bad_item :: "int \<Rightarrow> cell \<Rightarrow> bool" where
  "bad_item pl item = (case item of None \<Rightarrow> False | Some v \<Rightarrow> v \<le> 0 \<or> v > pl)"

definition load_game :: "reversi \<Rightarrow> int \<Rightarrow> board \<Rightarrow> nat list \<Rightarrow> (error + unit) \<times> reversi" where
  "load_game s t g ids =
     (if t \<le> 0 \<or> t > players s then (Inl (ValueError msg_turn), s)
      else if length g \<noteq> length (grid s) then (Inl (ValueError msg_length), s)
      else if list_ex (\<lambda>row. list_ex (bad_item (players s)) row) g then (Inl (ValueError msg_turn), s)
      else (Inr (), s\<lparr>turn := t, grid := g, row_ids := ids\<rparr>))"

subsection \<open>The end of the game\<close>

text \<open>
  The property \<open>done\<close> (\<open>done_prop\<close> here: \<open>done\<close> is a keyword).  Its loop assigns
  each player to \<open>self._turn\<close> in turn; \<open>no_moves and ...\<close> does not evaluate
  \<open>available_moves\<close> once \<open>no_moves\<close> is false.  An exception leaves the loop with the
  turn at the player being probed; the assignment that restores the turn is reached only
  when the loop ends.
\<close>

fun done_loop :: "reversi \<Rightarrow> int list \<Rightarrow> bool \<Rightarrow> (error + bool) \<times> reversi" where
  "done_loop s [] no_moves = (Inr no_moves, s)"
| "done_loop s (player # rest) no_moves =
     (let s' = s\<lparr>turn := player\<rparr> in
      if no_moves then
        (case available_moves s' of
           Inl e \<Rightarrow> (Inl e, s')
         | Inr ms \<Rightarrow> done_loop s' rest (ms = []))
      else done_loop s' rest False)"

definition done_prop :: "reversi \<Rightarrow> (error + bool) \<times> reversi" where
  "done_prop s =
     (let current_player = turn s in
      case done_loop s [1..players s] True of
        (Inl e, s') \<Rightarrow> (Inl e, s')
      | (Inr no_moves, s') \<Rightarrow> (Inr no_moves, s'\<lparr>turn := current_player\<rparr>))"

text \<open>
  The two statements that move the turn on: \<open>(turn + 1) % (players + 1)\<close>, which
  raises when \<open>players + 1\<close> is zero, and \<open>+= 1\<close> when the result is zero.
\<close>

definition advance_turn :: "reversi \<Rightarrow> (error + unit) \<times> reversi" where
  "advance_turn s =
     (if players s + 1 = 0 then (Inl ZeroDivisionError, s)
      else
        (let t = (turn s + 1) mod (players s + 1)
         in (Inr (), s\<lparr>turn := (if t = 0 then t + 1 else t)\<rparr>)))"

lemma done_loop_frame:
  "done_loop s ps nm = (r, s') \<Longrightarrow> s' = s\<lparr>turn := turn s'\<rparr>"
proof (induction ps arbitrary: s nm)
  case Nil
  then show ?case by auto
next
  case (Cons q ps)
  have step: "s' = (s\<lparr>turn := q\<rparr>)\<lparr>turn := turn s'\<rparr> \<Longrightarrow> s' = s\<lparr>turn := turn s'\<rparr>"
    by simp
  show ?case
  proof (cases nm)
    case False
    with Cons.prems have "done_loop (s\<lparr>turn := q\<rparr>) ps False = (r, s')" by simp
    from step[OF Cons.IH[OF this]] show ?thesis .
  next
    case True
    show ?thesis
    proof (cases "available_moves (s\<lparr>turn := q\<rparr>)")
      case (Inl e)
      with True Cons.prems have "s' = s\<lparr>turn := q\<rparr>" by simp
      then show ?thesis by simp
    next
      case (Inr ms)
      with True Cons.prems have "done_loop (s\<lparr>turn := q\<rparr>) ps (ms = []) = (r, s')" by simp
      from step[OF Cons.IH[OF this]] show ?thesis .
    qed
  qed
qed

lemma done_prop_frame: "done_prop s = (Inr b, s') \<Longrightarrow> s' = s"
proof -
  assume a: "done_prop s = (Inr b, s')"
  obtain r s1 where l: "done_loop s [1..players s] True = (r, s1)" by (cases "done_loop s [1..players s] True")
  from a l have s': "s' = s1\<lparr>turn := turn s\<rparr>"
    by (cases r) (auto simp: done_prop_def Let_def)
  from done_loop_frame[OF l] have "s1 = s\<lparr>turn := turn s1\<rparr>" .
  then have "s1\<lparr>turn := turn s\<rparr> = s" by (metis reversi.surjective reversi.update_convs(5) reversi.select_convs(5))
  with s' show ?thesis by simp
qed

lemma done_loop_False: "fst (done_loop s ps False) = Inr False"
  by (induction ps arbitrary: s) (auto simp: Let_def)

lemma done_loop_value:
  "fst (done_loop s ps True) = Inr True \<longleftrightarrow> (\<forall>q \<in> set ps. available_moves (s\<lparr>turn := q\<rparr>) = Inr [])"
proof (induction ps arbitrary: s)
  case Nil
  then show ?case by simp
next
  case (Cons q ps)
  show ?case
  proof (cases "available_moves (s\<lparr>turn := q\<rparr>)")
    case (Inl e)
    then show ?thesis by auto
  next
    case (Inr ms)
    show ?thesis
    proof (cases "ms = []")
      case True
      with Inr Cons.IH[of "s\<lparr>turn := q\<rparr>"] show ?thesis by simp
    next
      case False
      with Inr done_loop_False[of "s\<lparr>turn := q\<rparr>" ps] show ?thesis by auto
    qed
  qed
qed

lemma done_loop_has_mover:
  "fst (done_loop s ps True) = Inr False \<Longrightarrow>
     \<exists>q \<in> set ps. \<exists>m ms. available_moves (s\<lparr>turn := q\<rparr>) = Inr (m # ms)"
proof (induction ps arbitrary: s)
  case Nil
  then show ?case by simp
next
  case (Cons q ps)
  show ?case
  proof (cases "available_moves (s\<lparr>turn := q\<rparr>)")
    case (Inl e)
    with Cons.prems show ?thesis by auto
  next
    case (Inr ms)
    show ?thesis
    proof (cases ms)
      case Nil
      with Inr Cons.prems have "fst (done_loop (s\<lparr>turn := q\<rparr>) ps True) = Inr False" by simp
      from Cons.IH[OF this] show ?thesis by simp
    next
      case (Cons m ms')
      with Inr show ?thesis by auto
    qed
  qed
qed

lemma done_prop_fst: "fst (done_prop s) = fst (done_loop s [1..players s] True)"
  by (auto simp: done_prop_def Let_def split: prod.splits sum.splits)

lemma done_prop_True_iff:
  "fst (done_prop s) = Inr True \<longleftrightarrow> (\<forall>q \<in> set [1..players s]. available_moves (s\<lparr>turn := q\<rparr>) = Inr [])"
  by (simp only: done_prop_fst done_loop_value)

lemma done_prop_False_mover:
  "fst (done_prop s) = Inr False \<Longrightarrow>
     \<exists>q \<in> set [1..players s]. \<exists>m ms. available_moves (s\<lparr>turn := q\<rparr>) = Inr (m # ms)"
  by (simp only: done_prop_fst done_loop_has_mover)

subsection \<open>Skipping players without a move\<close>

text \<open>
  The loop \<open>while len(self.available_moves) == 0 and not self.done\<close> of
  \<open>apply_move\<close>.  It ends: when the game is not done some player has a move, and the
  turn passes through every player.  \<open>skips_left\<close> counts the steps to the next
  player with a move.
\<close>

definition next_player :: "int \<Rightarrow> int \<Rightarrow> int" where
  "next_player P t = (let u = (t + 1) mod (P + 1) in if u = 0 then u + 1 else u)"

lemma advance_turn_eq:
  "players s + 1 \<noteq> 0 \<Longrightarrow> advance_turn s = (Inr (), s\<lparr>turn := next_player (players s) (turn s)\<rparr>)"
  by (simp add: advance_turn_def next_player_def Let_def)

lemma next_player_range: "1 \<le> P \<Longrightarrow> 1 \<le> next_player P t \<and> next_player P t \<le> P"
proof -
  assume P: "1 \<le> P"
  define u where "u = (t + 1) mod (P + 1)"
  have "0 \<le> u"
    unfolding u_def using P by simp
  moreover have "u < P + 1"
    unfolding u_def using P by (intro pos_mod_bound) simp
  moreover have "next_player P t = (if u = 0 then 1 else u)"
    by (simp add: next_player_def u_def Let_def)
  ultimately show ?thesis using P by (cases "u = 0") simp_all
qed

lemma next_player_succ: "1 \<le> x \<Longrightarrow> x < P \<Longrightarrow> next_player P x = x + 1"
  by (simp add: next_player_def Let_def)

lemma next_player_wrap: "1 \<le> P \<Longrightarrow> next_player P P = 1"
  by (simp add: next_player_def Let_def)

lemma next_player_steps:
  "1 \<le> x \<Longrightarrow> x + int k \<le> P \<Longrightarrow> (next_player P ^^ k) x = x + int k"
proof (induction k)
  case 0
  then show ?case by simp
next
  case (Suc k)
  then have "(next_player P ^^ k) x = x + int k" by simp
  moreover have "next_player P (x + int k) = x + int k + 1"
    using Suc.prems by (intro next_player_succ) auto
  ultimately show ?case by simp
qed

lemma next_player_reaches_from:
  assumes "1 \<le> x" "x \<le> P" "1 \<le> q" "q \<le> P"
  shows "\<exists>n. (next_player P ^^ n) x = q"
proof (cases "x \<le> q")
  case True
  have "(next_player P ^^ nat (q - x)) x = x + int (nat (q - x))"
    using assms True by (intro next_player_steps) auto
  with True show ?thesis by (intro exI[of _ "nat (q - x)"]) simp
next
  case False
  have a: "(next_player P ^^ nat (P - x)) x = P"
    using next_player_steps[of x "nat (P - x)" P] assms by simp
  have b: "next_player P P = 1" using assms by (intro next_player_wrap) simp
  have c: "(next_player P ^^ nat (q - 1)) 1 = q"
    using next_player_steps[of 1 "nat (q - 1)" P] assms by simp
  have "(next_player P ^^ (nat (q - 1) + (1 + nat (P - x)))) x = q"
    unfolding funpow_add by (simp add: a b c)
  then show ?thesis by blast
qed

lemma next_player_reaches:
  assumes "1 \<le> q" "q \<le> P"
  shows "\<exists>n. (next_player P ^^ n) t = q"
proof -
  have P: "1 \<le> P" using assms by simp
  from next_player_range[OF P, of t] assms
  obtain n where "(next_player P ^^ n) (next_player P t) = q"
    using next_player_reaches_from[of "next_player P t" P q] by auto
  then have "(next_player P ^^ (Suc n)) t = q" by (simp add: funpow_swap1)
  then show ?thesis by blast
qed

definition turn_after :: "reversi \<Rightarrow> reversi" where
  "turn_after s = s\<lparr>turn := next_player (players s) (turn s)\<rparr>"

lemma turn_after_funpow:
  "(turn_after ^^ n) s = s\<lparr>turn := (next_player (players s) ^^ n) (turn s)\<rparr>"
  by (induction n) (simp_all add: turn_after_def)

lemma mover_reached:
  assumes "fst (done_prop s) = Inr False"
  shows "\<exists>n. available_moves ((turn_after ^^ n) s) \<noteq> Inr []"
proof -
  from done_prop_False_mover[OF assms]
  obtain q m ms where q: "1 \<le> q" "q \<le> players s"
    and av: "available_moves (s\<lparr>turn := q\<rparr>) = Inr (m # ms)" by auto
  from next_player_reaches[OF q] obtain n where "(next_player (players s) ^^ n) (turn s) = q" by blast
  then have "(turn_after ^^ n) s = s\<lparr>turn := q\<rparr>" by (simp add: turn_after_funpow)
  with av show ?thesis by (intro exI[of _ n]) simp
qed

definition skips_left :: "reversi \<Rightarrow> nat" where
  "skips_left s = (LEAST n. available_moves ((turn_after ^^ n) s) \<noteq> Inr [])"

lemma skips_left_step:
  assumes "available_moves s = Inr []" "fst (done_prop s) = Inr False"
  shows "skips_left (turn_after s) < skips_left s"
proof -
  let ?Q = "\<lambda>n. available_moves ((turn_after ^^ n) s) \<noteq> Inr []"
  from mover_reached[OF assms(2)] obtain n where n: "?Q n" by blast
  have "\<not> ?Q 0" using assms(1) by simp
  from Least_Suc[of ?Q, OF n this]
  have "skips_left s = Suc (LEAST m. ?Q (Suc m))" by (simp add: skips_left_def)
  moreover have "(LEAST m. ?Q (Suc m)) = skips_left (turn_after s)"
    by (simp add: skips_left_def funpow_swap1)
  ultimately show ?thesis by simp
qed

lemma done_False_players: "fst (done_prop s) = Inr False \<Longrightarrow> 1 \<le> players s"
  using done_prop_False_mover[of s] by auto

function skip_loop :: "reversi \<Rightarrow> (error + unit) \<times> reversi" where
  "skip_loop s =
     (case available_moves s of
        Inl e \<Rightarrow> (Inl e, s)
      | Inr ms \<Rightarrow>
          if ms = [] then
            (case done_prop s of
               (Inl e, s') \<Rightarrow> (Inl e, s')
             | (Inr is_done, s') \<Rightarrow>
                 if \<not> is_done then
                   (case advance_turn s' of
                      (Inl e, s'') \<Rightarrow> (Inl e, s'')
                    | (Inr u, s'') \<Rightarrow> skip_loop s'')
                 else (Inr (), s'))
          else (Inr (), s))"
  by pat_completeness auto

termination
proof (relation "measure skips_left")
  show "wf (measure skips_left)" by simp
next
  fix s :: reversi and ms :: "pos list" and r :: "error + bool" and s' :: reversi
    and is_done :: bool and r' :: "error + unit" and s'' :: reversi and u :: unit
  assume av: "available_moves s = Inr ms" and ms: "ms = []"
    and x: "(r, s') = done_prop s" and r: "r = Inr is_done" and nd: "\<not> is_done"
    and y: "(r', s'') = advance_turn s'" and r': "r' = Inr u"
  from x r nd have d: "done_prop s = (Inr False, s')" by simp
  then have s': "s' = s" by (rule done_prop_frame)
  from d have dF: "fst (done_prop s) = Inr False" by simp
  from done_False_players[OF dF] have "players s + 1 \<noteq> 0" by simp
  from advance_turn_eq[OF this] y s' have "s'' = turn_after s" by (simp add: turn_after_def)
  with skips_left_step[of s] av ms dF
  show "(s'', s) \<in> measure skips_left" by simp
qed

declare skip_loop.simps [simp del]

subsection \<open>Placing and flipping\<close>

text \<open>
  The loop \<open>while self._grid[check_row][check_col] != self._turn\<close> of
  \<open>apply_move\<close> has no bounds check of its own: it ends at a piece of the mover or
  at the \<open>IndexError\<close> of a subscript.  \<open>flip_room\<close> bounds its steps.
\<close>

lemma py_slot_bound: "py_slot xs i = Some k \<Longrightarrow> k < length xs"
  by (auto simp: py_slot_def split: if_splits)

lemma py_slot_length_cong: "length ys = length xs \<Longrightarrow> py_slot ys i = py_slot xs i"
  by (simp add: py_slot_def)

lemma same_object_refl: "same_object ids k k"
  by (simp add: same_object_def)

lemma grid_set_length: "grid_set g ids r c v = Inr g' \<Longrightarrow> length g' = length g"
  by (auto simp: grid_set_def split: option.splits)

lemma grid_set_row_length:
  assumes "grid_set g ids r c v = Inr g'" "py_get g r = Inr row"
  shows "\<exists>row'. py_get g' r = Inr row' \<and> length row' = length row"
proof -
  from assms(1) obtain k l where k: "py_slot g r = Some k"
    and g': "g' = map (\<lambda>i. if same_object ids i k then (g ! i)[l := v] else g ! i) [0..<length g]"
    by (auto simp: grid_set_def split: option.splits)
  from k assms(2) have row: "row = g ! k" by (simp add: py_get_def)
  have kl: "k < length g" using k by (rule py_slot_bound)
  have "py_slot g' r = py_slot g r" by (rule py_slot_length_cong) (simp add: g')
  with k have "py_slot g' r = Some k" by simp
  moreover have "g' ! k = (g ! k)[l := v]" using kl by (simp add: g' same_object_refl)
  ultimately show ?thesis by (simp add: py_get_def row)
qed

definition flip_room :: "board \<Rightarrow> direction \<Rightarrow> pos \<Rightarrow> nat" where
  "flip_room g d p =
     (case (shift d, p) of
        ((dr, dc), (r, c)) \<Rightarrow>
          if dr = 1 then nat (int (length g) - r)
          else if dr = -1 then nat (r + int (length g) + 1)
          else
            (case py_get g r of
               Inl e \<Rightarrow> 0
             | Inr row \<Rightarrow>
                 if dc = 1 then nat (int (length row) - c)
                 else nat (c + int (length row) + 1)))"

lemma py_get_range: "py_get xs i = Inr x \<Longrightarrow> - int (length xs) \<le> i \<and> i < int (length xs)"
  by (auto simp: py_get_def py_slot_def split: if_splits)

lemma flip_room_step:
  assumes get: "grid_get g (fst p) (snd p) = Inr v"
    and set: "grid_set g ids (fst p) (snd p) w = Inr g'"
  shows "flip_room g' d (fst p + fst (shift d), snd p + snd (shift d)) < flip_room g d p"
proof -
  obtain r c where p: "p = (r, c)" by (cases p)
  from get p obtain row where row: "py_get g r = Inr row" and cell: "py_get row c = Inr v"
    by (auto simp: grid_get_def split: sum.splits)
  from grid_set_length[OF set] have len: "length g' = length g" .
  from grid_set_row_length[of g ids r c w g' row] set row p
  obtain row' where row': "py_get g' r = Inr row'" "length row' = length row" by auto
  from py_get_range[OF row] py_get_range[OF cell] len row row'
  show ?thesis
    unfolding p by (cases d) (auto simp: flip_room_def)
qed

function flip_walk :: "board \<Rightarrow> nat list \<Rightarrow> int \<Rightarrow> direction \<Rightarrow> pos \<Rightarrow> (error + unit) \<times> board" where
  "flip_walk g ids t d p =
     (case grid_get g (fst p) (snd p) of
        Inl e \<Rightarrow> (Inl e, g)
      | Inr v \<Rightarrow>
          if v \<noteq> Some t then
            (case grid_set g ids (fst p) (snd p) (Some t) of
               Inl e \<Rightarrow> (Inl e, g)
             | Inr g' \<Rightarrow> flip_walk g' ids t d (fst p + fst (shift d), snd p + snd (shift d)))
          else (Inr (), g))"
  by pat_completeness auto

termination
proof (relation "measure (\<lambda>(g, ids, t, d, p). flip_room g d p)")
  show "wf (measure (\<lambda>(g, ids, t, d, p). flip_room g d p))" by simp
next
  fix g :: board and ids :: "nat list" and t :: int and d :: direction and p :: pos
    and v :: cell and g' :: board
  assume "grid_get g (fst p) (snd p) = Inr v" "grid_set g ids (fst p) (snd p) (Some t) = Inr g'"
  from flip_room_step[OF this]
  show "((g', ids, t, d, fst p + fst (shift d), snd p + snd (shift d)), (g, ids, t, d, p))
      \<in> measure (\<lambda>(g, ids, t, d, p). flip_room g d p)" by simp
qed

declare flip_walk.simps [simp del]

text \<open>
  The first loop of the \<open>else\<close> branch collects the directions whose
  \<open>_check_direction\<close> is not \<open>None\<close>, the second walks each of them.
\<close>

fun retrace :: "reversi \<Rightarrow> pos \<Rightarrow> direction list \<Rightarrow> error + direction list" where
  "retrace s p [] = Inr []"
| "retrace s p (d # ds) =
     (case check_direction s (turn s) p d of
        Inl e \<Rightarrow> Inl e
      | Inr origin_loc \<Rightarrow>
          (case retrace s p ds of
             Inl e \<Rightarrow> Inl e
           | Inr retrace_dir \<Rightarrow> Inr (if origin_loc \<noteq> None then d # retrace_dir else retrace_dir)))"

fun flip_all :: "board \<Rightarrow> nat list \<Rightarrow> int \<Rightarrow> pos \<Rightarrow> direction list \<Rightarrow> (error + unit) \<times> board" where
  "flip_all g ids t p [] = (Inr (), g)"
| "flip_all g ids t p (d # ds) =
     (case flip_walk g ids t d (fst p + fst (shift d), snd p + snd (shift d)) of
        (Inl e, g') \<Rightarrow> (Inl e, g')
      | (Inr u, g') \<Rightarrow> flip_all g' ids t p ds)"

definition place_piece :: "reversi \<Rightarrow> pos \<Rightarrow> (error + unit) \<times> reversi" where
  "place_piece s p =
     (case grid_set (grid s) (row_ids s) (fst p) (snd p) (Some (turn s)) of
        Inl e \<Rightarrow> (Inl e, s)
      | Inr g' \<Rightarrow> (Inr (), s\<lparr>grid := g'\<rparr>))"

definition place_and_flip :: "reversi \<Rightarrow> pos \<Rightarrow> (error + unit) \<times> reversi" where
  "place_and_flip s p =
     (if \<not> othello s \<and> p \<in> set (center_pieces s) then place_piece s p
      else
        (case place_piece s p of
           (Inl e, s1) \<Rightarrow> (Inl e, s1)
         | (Inr u, s1) \<Rightarrow>
             (case retrace s1 p directions of
                Inl e \<Rightarrow> (Inl e, s1)
              | Inr retrace_dir \<Rightarrow>
                  (case flip_all (grid s1) (row_ids s1) (turn s1) p retrace_dir of
                     (r, g') \<Rightarrow> (r, s1\<lparr>grid := g'\<rparr>)))))"

text \<open>
  \<open>apply_move\<close>: the bounds check, the placement (with flips outside the bootstrap
  branch), the turn moved on once, and the skip loop.
\<close>

definition apply_move :: "reversi \<Rightarrow> pos \<Rightarrow> (error + unit) \<times> reversi" where
  "apply_move s p =
     (if \<not> in_bounds s p then (Inl (ValueError msg_bounds), s)
      else
        (case place_and_flip s p of
           (Inl e, s1) \<Rightarrow> (Inl e, s1)
         | (Inr u, s1) \<Rightarrow>
             (case advance_turn s1 of
                (Inl e, s2) \<Rightarrow> (Inl e, s2)
              | (Inr u', s2) \<Rightarrow> skip_loop s2)))"

subsection \<open>The outcome\<close>

text \<open>
  \<open>outcome\<close> counts the pieces in a dict, which keeps its keys in the order of their
  first insertion: an association list, a new key appended at the end.
\<close>

fun count_piece :: "(int \<times> int) list \<Rightarrow> int \<Rightarrow> (int \<times> int) list" where
  "count_piece [] c = [(c, 1)]"
| "count_piece ((k, n) # kvs) c =
     (if k = c then (k, n + 1) # kvs else (k, n) # count_piece kvs c)"

definition count_cell :: "(int \<times> int) list \<Rightarrow> cell \<Rightarrow> (int \<times> int) list" where
  "count_cell d c = (case c of None \<Rightarrow> d | Some player \<Rightarrow> count_piece d player)"

definition player_pieces :: "board \<Rightarrow> (int \<times> int) list" where
  "player_pieces g = foldl count_cell [] (concat g)"

definition maximum_pieces :: "(int \<times> int) list \<Rightarrow> int" where
  "maximum_pieces d = foldl (\<lambda>m pieces. if pieces > m then pieces else m) 0 (map snd d)"

definition outcome :: "reversi \<Rightarrow> (error + int list) \<times> reversi" where
  "outcome s =
     (case done_prop s of
        (Inl e, s') \<Rightarrow> (Inl e, s')
      | (Inr is_done, s') \<Rightarrow>
          if \<not> is_done then (Inr [], s')
          else
            (let pp = player_pieces (grid s')
             in (Inr (map fst (filter (\<lambda>(player, pieces). pieces = maximum_pieces pp) pp)), s')))"

subsection \<open>Objects and references: \<open>simulate_moves\<close>\<close>

text \<open>
  \<open>simulate_moves\<close> builds a second engine, and whether it leaves the receiver alone
  depends on which list objects the two engines share.  Here an engine is an object in a
  store: its scalar attributes, and in \<open>_grid\<close> a reference to a list object that holds
  the board.  A list object is what its rows hold (\<open>lists\<close>) and the identities of its
  rows (\<open>row_refs\<close>), as \<open>grid\<close> and \<open>row_ids\<close> in the engine.  \<open>fresh\<close> is
  the next unused address; an allocation takes it.  A method of the engine reads the
  object and its list (\<open>view\<close>), runs as modelled above, and writes \<open>_turn\<close> back to
  the object and the board back to the list object it mutated in place
  (\<open>store_back\<close>; no method changes which rows a list has).
\<close>

record obj =
  o_side :: int
  o_players :: int
  o_othello :: bool
  o_grid :: nat
  o_turn :: int

record heap =
  objs :: "nat \<Rightarrow> obj"
  lists :: "nat \<Rightarrow> board"
  row_refs :: "nat \<Rightarrow> nat list"
  fresh :: nat

definition view :: "heap \<Rightarrow> nat \<Rightarrow> reversi" where
  "view h a =
     \<lparr>side = o_side (objs h a), players = o_players (objs h a), othello = o_othello (objs h a),
      grid = lists h (o_grid (objs h a)), turn = o_turn (objs h a),
      row_ids = row_refs h (o_grid (objs h a))\<rparr>"

definition store_back :: "heap \<Rightarrow> nat \<Rightarrow> reversi \<Rightarrow> heap" where
  "store_back h a s =
     h\<lparr>objs := (objs h)(a := (objs h a)\<lparr>o_turn := turn s\<rparr>),
       lists := (lists h)(o_grid (objs h a) := grid s)\<rparr>"

definition alloc_list :: "heap \<Rightarrow> board \<Rightarrow> nat list \<Rightarrow> nat \<times> heap" where
  "alloc_list h g ids =
     (fresh h, h\<lparr>lists := (lists h)(fresh h := g), row_refs := (row_refs h)(fresh h := ids),
                 fresh := Suc (fresh h)\<rparr>)"

definition alloc_obj :: "heap \<Rightarrow> obj \<Rightarrow> nat \<times> heap" where
  "alloc_obj h ob = (fresh h, h\<lparr>objs := (objs h)(fresh h := ob), fresh := Suc (fresh h)\<rparr>)"

text \<open>\<open>Reversi(side, players, othello)\<close>: a new list object and a new engine object.\<close>

definition h_Reversi :: "heap \<Rightarrow> int \<Rightarrow> int \<Rightarrow> bool \<Rightarrow> (error + nat) \<times> heap" where
  "h_Reversi h sd pl oth =
     (case Reversi_init sd pl oth of
        Inl e \<Rightarrow> (Inl e, h)
      | Inr s \<Rightarrow>
          (case alloc_list h (grid s) (row_ids s) of
             (gr, h1) \<Rightarrow>
               (case alloc_obj h1 \<lparr>o_side = sd, o_players = pl, o_othello = oth,
                                    o_grid = gr, o_turn = turn s\<rparr> of
                  (a, h2) \<Rightarrow> (Inr a, h2))))"

text \<open>
  The property \<open>grid\<close>: \<open>deepcopy(self._grid)\<close> is a new list object with new rows.
  \<open>deepcopy\<close> copies an object it meets again only once (its memo), so the rows of the
  copy are shared among its slots as the rows of the original are, and with no other
  list.
\<close>

definition h_grid :: "heap \<Rightarrow> nat \<Rightarrow> nat \<times> heap" where
  "h_grid h a = alloc_list h (lists h (o_grid (objs h a))) (row_refs h (o_grid (objs h a)))"

text \<open>
  \<open>load_game(turn, grid)\<close>: the checks read the list the argument refers to; the
  assignment \<open>self._grid = grid\<close> stores the reference itself.
\<close>

definition h_load_game :: "heap \<Rightarrow> nat \<Rightarrow> int \<Rightarrow> nat \<Rightarrow> (error + unit) \<times> heap" where
  "h_load_game h a t gr =
     (case load_game (view h a) t (lists h gr) (row_refs h gr) of
        (Inl e, s') \<Rightarrow> (Inl e, h)
      | (Inr u, s') \<Rightarrow> (Inr (), h\<lparr>objs := (objs h)(a := (objs h a)\<lparr>o_turn := t, o_grid := gr\<rparr>)\<rparr>))"

definition h_apply_move :: "heap \<Rightarrow> nat \<Rightarrow> pos \<Rightarrow> (error + unit) \<times> heap" where
  "h_apply_move h a p = (case apply_move (view h a) p of (r, s') \<Rightarrow> (r, store_back h a s'))"

text \<open>
  The loop of \<open>simulate_moves\<close>: the bounds check is the receiver's, the occupancy
  check reads \<open>sim_reversi.grid\<close> (a copy made for the purpose), the move is applied to
  \<open>sim_reversi\<close>.
\<close>

fun sim_loop :: "heap \<Rightarrow> nat \<Rightarrow> nat \<Rightarrow> pos list \<Rightarrow> (error + unit) \<times> heap" where
  "sim_loop h self sim [] = (Inr (), h)"
| "sim_loop h self sim (move # moves) =
     (if \<not> in_bounds (view h self) move then (Inl (ValueError msg_sim_bounds), h)
      else
        (case h_grid h sim of
           (gr, h1) \<Rightarrow>
             (case grid_get (lists h1 gr) (fst move) (snd move) of
                Inl e \<Rightarrow> (Inl e, h1)
              | Inr here \<Rightarrow>
                  if here \<noteq> None then (Inl (ValueError msg_occupied), h1)
                  else
                    (case h_apply_move h1 sim move of
                       (Inl e, h2) \<Rightarrow> (Inl e, h2)
                     | (Inr u, h2) \<Rightarrow> sim_loop h2 self sim moves))))"

definition simulate_moves :: "heap \<Rightarrow> nat \<Rightarrow> pos list \<Rightarrow> (error + nat) \<times> heap" where
  "simulate_moves h self moves =
     (case h_Reversi h (o_side (objs h self)) (o_players (objs h self)) (o_othello (objs h self)) of
        (Inl e, h1) \<Rightarrow> (Inl e, h1)
      | (Inr sim, h1) \<Rightarrow>
          (case h_grid h1 self of
             (gr, h2) \<Rightarrow>
               (case h_load_game h2 sim (o_turn (objs h2 self)) gr of
                  (Inl e, h3) \<Rightarrow> (Inl e, h3)
                | (Inr u, h3) \<Rightarrow>
                    (case sim_loop h3 self sim moves of
                       (Inl e, h4) \<Rightarrow> (Inl e, h4)
                     | (Inr u', h4) \<Rightarrow> (Inr sim, h4)))))"

section \<open>The vocabulary of the properties\<close>

text \<open>
  Predicates and measures in which the properties below are stated: the shape of a
  board, the cell at a position, rays and what it means that one captures, the number of
  occupied cells, and what a store keeps of an engine.
\<close>

definition valid_item :: "int \<Rightarrow> cell \<Rightarrow> bool" where
  "valid_item pl item = (case item of None \<Rightarrow> True | Some v \<Rightarrow> 1 \<le> v \<and> v \<le> pl)"

definition shape_ok :: "reversi \<Rightarrow> bool" where
  "shape_ok s =
     (int (length (grid s)) = side s \<and> (\<forall>row \<in> set (grid s). int (length row) = side s))"

definition cell_at :: "reversi \<Rightarrow> pos \<Rightarrow> cell" where
  "cell_at s p = grid s ! nat (fst p) ! nat (snd p)"

definition ray_cell :: "pos \<Rightarrow> direction \<Rightarrow> nat \<Rightarrow> pos" where
  "ray_cell p d n = (fst p + int n * fst (shift d), snd p + int n * snd (shift d))"

definition opponent_at :: "reversi \<Rightarrow> int \<Rightarrow> pos \<Rightarrow> bool" where
  "opponent_at s player q = (case cell_at s q of None \<Rightarrow> False | Some v \<Rightarrow> v \<noteq> player)"

definition ray_captures :: "nat \<Rightarrow> reversi \<Rightarrow> int \<Rightarrow> pos \<Rightarrow> direction \<Rightarrow> bool" where
  "ray_captures least s player p d =
     (\<exists>k \<ge> least.
        (\<forall>i. 1 \<le> i \<and> i \<le> k \<longrightarrow> in_bounds s (ray_cell p d i) \<and> opponent_at s player (ray_cell p d i))
        \<and> in_bounds s (ray_cell p d (k + 1))
        \<and> cell_at s (ray_cell p d (k + 1)) = Some player)"

definition center_filled :: "reversi \<Rightarrow> bool" where
  "center_filled s = list_all (\<lambda>sq. in_bounds s sq \<and> cell_at s sq \<noteq> None) (center_pieces s)"

text \<open>The ray from \<open>x\<close> meets a piece of the player after \<open>j\<close> opposing pieces, \<open>x\<close> being the first.\<close>

definition lands :: "reversi \<Rightarrow> int \<Rightarrow> pos \<Rightarrow> direction \<Rightarrow> nat \<Rightarrow> bool" where
  "lands s player x d j =
     ((\<forall>i < j. in_bounds s (ray_cell x d i) \<and> opponent_at s player (ray_cell x d i))
      \<and> in_bounds s (ray_cell x d j) \<and> cell_at s (ray_cell x d j) = Some player)"

definition labels_ok :: "reversi \<Rightarrow> bool" where
  "labels_ok s = (\<forall>row \<in> set (grid s). \<forall>item \<in> set row. valid_item (players s) item)"

definition piece_count :: "reversi \<Rightarrow> int \<Rightarrow> int" where
  "piece_count s q = int (count_list (concat (grid s)) (Some q))"

definition held :: "(int \<times> int) list \<Rightarrow> int \<Rightarrow> int" where
  "held d k = (case map_of d k of None \<Rightarrow> 0 | Some n \<Rightarrow> n)"

text \<open>The number of occupied cells of a row and of a board.\<close>

definition occupied_row :: "cell list \<Rightarrow> nat" where
  "occupied_row row = length (filter (\<lambda>c. c \<noteq> None) row)"

definition occupied :: "board \<Rightarrow> nat" where
  "occupied g = length (filter (\<lambda>c. c \<noteq> None) (concat g))"

text \<open>
  A cell after flips in favour of player \<open>t\<close>: as before, or a piece of another player
  turned into a piece of \<open>t\<close>.
\<close>

definition flip_cell :: "int \<Rightarrow> cell \<Rightarrow> cell \<Rightarrow> bool" where
  "flip_cell t c c' = (c' = c \<or> (\<exists>v. c = Some v \<and> v \<noteq> t \<and> c' = Some t))"

definition only_flips :: "int \<Rightarrow> board \<Rightarrow> board \<Rightarrow> bool" where
  "only_flips t g g' = list_all2 (list_all2 (flip_cell t)) g g'"

text \<open>
  A cell after writes of the label of player \<open>t\<close>, whatever it held: as before, or a
  piece of \<open>t\<close>.  This is all that can be said of a board whose rows may be one
  object, where a write to one row is a write to each row that is the same list.
\<close>

definition paint_cell :: "int \<Rightarrow> cell \<Rightarrow> cell \<Rightarrow> bool" where
  "paint_cell t c c' = (c' = c \<or> c' = Some t)"

definition paints :: "int \<Rightarrow> board \<Rightarrow> board \<Rightarrow> bool" where
  "paints t g g' = list_all2 (list_all2 (paint_cell t)) g g'"

text \<open>
  Slots that hold one row object read the same row.  A list of the program has this
  property by what \<open>row_ids\<close> means.
\<close>

definition rows_agree :: "board \<Rightarrow> nat list \<Rightarrow> bool" where
  "rows_agree g ids =
     (\<forall>i < length g. \<forall>k < length g. same_object ids i k \<longrightarrow> g ! i = g ! k)"

text \<open>Writing one cell of a well-formed board.\<close>

definition put_cell :: "board \<Rightarrow> pos \<Rightarrow> cell \<Rightarrow> board" where
  "put_cell g x v = g[nat (fst x) := (g ! nat (fst x))[nat (snd x) := v]]"

text \<open>Two engines that differ at most in the turn.\<close>

definition same_board :: "reversi \<Rightarrow> reversi \<Rightarrow> bool" where
  "same_board s s' = (s' = s\<lparr>turn := turn s'\<rparr>)"

text \<open>
  What the receiver can observe of itself is kept from \<open>h\<close> to \<open>h'\<close>: its object, the
  list its \<open>_grid\<close> refers to, and that both lie below \<open>fresh\<close>.
\<close>

definition keeps :: "nat \<Rightarrow> heap \<Rightarrow> heap \<Rightarrow> bool" where
  "keeps self h h' =
     (objs h' self = objs h self
      \<and> lists h' (o_grid (objs h self)) = lists h (o_grid (objs h self))
      \<and> row_refs h' (o_grid (objs h self)) = row_refs h (o_grid (objs h self))
      \<and> fresh h \<le> fresh h')"

definition allocated :: "heap \<Rightarrow> nat \<Rightarrow> bool" where
  "allocated h a = (a < fresh h \<and> o_grid (objs h a) < fresh h)"

text \<open>The other engine is a different object with a different list.\<close>

definition apart :: "heap \<Rightarrow> nat \<Rightarrow> nat \<Rightarrow> bool" where
  "apart h self sim = (sim \<noteq> self \<and> o_grid (objs h sim) \<noteq> o_grid (objs h self))"

subsection \<open>Positions used as examples\<close>

definition othello8 :: reversi where
  "othello8 =
     \<lparr>side = 8, players = 2, othello = True,
      grid =
        [[None, None, None, None, None, None, None, None],
         [None, None, None, None, None, None, None, None],
         [None, None, None, None, None, None, None, None],
         [None, None, None, Some 2, Some 1, None, None, None],
         [None, None, None, Some 1, Some 2, None, None, None],
         [None, None, None, None, None, None, None, None],
         [None, None, None, None, None, None, None, None],
         [None, None, None, None, None, None, None, None]],
      turn = 1,
      row_ids = [0, 1, 2, 3, 4, 5, 6, 7]\<rparr>"

definition opening4 :: reversi where
  "opening4 =
     \<lparr>side = 4, players = 2, othello = False,
      grid =
        [[None, None, None, None],
         [None, Some 1, None, None],
         [None, None, None, None],
         [None, None, None, None]],
      turn = 2,
      row_ids = [0, 1, 2, 3]\<rparr>"

definition full4 :: reversi where
  "full4 =
     \<lparr>side = 4, players = 2, othello = True,
      grid =
        [[Some 1, Some 1, Some 1, Some 1],
         [Some 1, Some 1, Some 2, Some 2],
         [Some 2, Some 1, Some 2, Some 2],
         [Some 2, Some 2, Some 2, Some 1]],
      turn = 2,
      row_ids = [0, 1, 2, 3]\<rparr>"

definition tied8 :: reversi where
  "tied8 =
     \<lparr>side = 8, players = 2, othello = True,
      grid =
        [[Some 2, Some 1, Some 1, Some 1, Some 1, Some 1, Some 1, Some 1],
         [Some 1, Some 1, Some 1, Some 1, Some 1, Some 1, Some 1, Some 1],
         [Some 1, Some 1, Some 1, Some 1, Some 1, Some 1, Some 1, Some 1],
         [Some 1, Some 1, Some 1, Some 1, Some 1, Some 1, Some 1, Some 1],
         [Some 2, Some 2, Some 2, Some 2, Some 2, Some 2, Some 2, Some 2],
         [Some 2, Some 2, Some 2, Some 2, Some 2, Some 2, Some 2, Some 2],
         [Some 2, Some 2, Some 2, Some 2, Some 2, Some 2, Some 2, Some 2],
         [Some 2, Some 2, Some 2, Some 2, Some 2, Some 2, Some 2, Some 1]],
      turn = 1,
      row_ids = [0, 1, 2, 3, 4, 5, 6, 7]\<rparr>"

definition skip4 :: reversi where
  "skip4 =
     \<lparr>side = 4, players = 2, othello = True,
      grid =
        [[Some 1, Some 1, Some 1, None],
         [Some 1, Some 1, Some 1, None],
         [None, Some 1, Some 2, None],
         [None, None, None, None]],
      turn = 1,
      row_ids = [0, 1, 2, 3]\<rparr>"

text \<open>\<open>Reversi(3, 5, False)\<close>: five players on a board of side three.\<close>

definition crowded3 :: reversi where
  "crowded3 =
     \<lparr>side = 3, players = 5, othello = False,
      grid =
        [[None, None, None],
         [None, None, None],
         [None, None, None]],
      turn = 1,
      row_ids = [0, 1, 2]\<rparr>"

text \<open>
  \<open>Reversi(4, 2, True)\<close>, and the engine after
  \<open>row = [None, 2, 1, None]; load_game(1, [row] * 4)\<close>: four slots, one row.
\<close>

definition start4 :: reversi where
  "start4 =
     \<lparr>side = 4, players = 2, othello = True,
      grid =
        [[None, None, None, None],
         [None, Some 2, Some 1, None],
         [None, Some 1, Some 2, None],
         [None, None, None, None]],
      turn = 1,
      row_ids = [0, 1, 2, 3]\<rparr>"

definition alias4 :: reversi where
  "alias4 =
     \<lparr>side = 4, players = 2, othello = True,
      grid =
        [[None, Some 2, Some 1, None],
         [None, Some 2, Some 1, None],
         [None, Some 2, Some 1, None],
         [None, Some 2, Some 1, None]],
      turn = 1,
      row_ids = [0, 0, 0, 0]\<rparr>"

definition heap0 :: heap where
  "heap0 =
     \<lparr>objs = (\<lambda>a. \<lparr>o_side = 0, o_players = 0, o_othello = False, o_grid = 0, o_turn = 0\<rparr>)
               (0 := \<lparr>o_side = 8, o_players = 2, o_othello = True, o_grid = 1, o_turn = 1\<rparr>),
      lists = (\<lambda>a. [])(1 := grid othello8),
      row_refs = (\<lambda>a. [])(1 := row_ids othello8),
      fresh = 2\<rparr>"

section \<open>Properties\<close>

subsection \<open>Construction and loading\<close>

lemma Reversi_init_othello8: "Reversi_init 8 2 True = Inr othello8"
  by code_simp

lemma available_moves_othello8: "available_moves othello8 = Inr [(2, 3), (3, 2), (4, 5), (5, 4)]"
  by code_simp

text \<open>
  Claim C7.  \<open>Reversi(8, 2, True)\<close> succeeds; the state it yields has player 2 at
  (3,3) and (4,4), player 1 at (3,4) and (4,3), every other of the 64 cells empty
  (the 60 remaining positions of the scan all read \<open>None\<close>), the turn at player 1, and
  the available moves are exactly (2,3), (3,2), (4,5) and (5,4).
\<close>

theorem othello_seed_8:
  "Reversi_init 8 2 True = Inr othello8
   \<and> piece_at othello8 (3, 3) = Inr (Some 2)
   \<and> piece_at othello8 (3, 4) = Inr (Some 1)
   \<and> piece_at othello8 (4, 3) = Inr (Some 1)
   \<and> piece_at othello8 (4, 4) = Inr (Some 2)
   \<and> map (\<lambda>p. piece_at othello8 p)
         (filter (\<lambda>p. p \<notin> {(3, 3), (3, 4), (4, 3), (4, 4)}) (scan_positions (grid othello8)))
       = replicate 60 (Inr None)
   \<and> set (scan_positions (grid othello8)) = {0..7} \<times> {0..7}
   \<and> turn othello8 = 1
   \<and> (\<exists>ms. available_moves othello8 = Inr ms \<and> set ms = {(2, 3), (3, 2), (4, 5), (5, 4)})"
proof -
  have 1: "piece_at othello8 (3, 3) = Inr (Some 2)" by code_simp
  have 2: "piece_at othello8 (3, 4) = Inr (Some 1)" by code_simp
  have 3: "piece_at othello8 (4, 3) = Inr (Some 1)" by code_simp
  have 4: "piece_at othello8 (4, 4) = Inr (Some 2)" by code_simp
  have 5: "map (\<lambda>p. piece_at othello8 p)
         (filter (\<lambda>p. p \<notin> {(3, 3), (3, 4), (4, 3), (4, 4)}) (scan_positions (grid othello8)))
       = replicate 60 (Inr None)" by code_simp
  have 6: "set (scan_positions (grid othello8)) = {0..7} \<times> {0..7}" by code_simp
  have 7: "turn othello8 = 1" by (simp add: othello8_def)
  have 8: "\<exists>ms. available_moves othello8 = Inr ms \<and> set ms = {(2, 3), (3, 2), (4, 5), (5, 4)}"
    by (simp add: available_moves_othello8)
  from Reversi_init_othello8 1 2 3 4 5 6 7 8 show ?thesis by blast
qed

lemma bad_item_iff: "bad_item pl item \<longleftrightarrow> \<not> valid_item pl item"
  by (cases item) (auto simp: bad_item_def valid_item_def)

lemma list_ex_bad_item:
  "list_ex (\<lambda>row. list_ex (bad_item pl) row) g \<longleftrightarrow> (\<exists>row \<in> set g. \<exists>item \<in> set row. \<not> valid_item pl item)"
  by (simp add: list_ex_iff bad_item_iff)

text \<open>
  Claim C6.  \<open>load_game\<close> checks the turn, then the row count, then the items, and
  raises before it assigns anything: a turn outside \<open>[1, players]\<close> fails whatever the
  grid is; with a good turn a row count other than \<open>side\<close> fails whatever the items
  are; with both good an item that is neither \<open>None\<close> nor in \<open>[1, players]\<close> fails;
  each failure returns the engine as it was.  Otherwise the call succeeds and the
  engine's turn and grid are the given ones: the grid has the given contents and is the
  given list, rows and all.  The source compares the row count with
  \<open>len(self._grid)\<close>, which is \<open>side\<close> in every engine the constructor built.
\<close>

theorem load_game_validates:
  assumes rows: "int (length (grid s)) = side s"
  shows "(\<not> (1 \<le> t \<and> t \<le> players s) \<longrightarrow>
            load_game s t g ids = (Inl (ValueError msg_turn), s))
       \<and> (1 \<le> t \<and> t \<le> players s \<and> int (length g) \<noteq> side s \<longrightarrow>
            load_game s t g ids = (Inl (ValueError msg_length), s))
       \<and> (1 \<le> t \<and> t \<le> players s \<and> int (length g) = side s
            \<and> (\<exists>row \<in> set g. \<exists>item \<in> set row. \<not> valid_item (players s) item) \<longrightarrow>
            load_game s t g ids = (Inl (ValueError msg_turn), s))
       \<and> (1 \<le> t \<and> t \<le> players s \<and> int (length g) = side s
            \<and> (\<forall>row \<in> set g. \<forall>item \<in> set row. valid_item (players s) item) \<longrightarrow>
            load_game s t g ids = (Inr (), s\<lparr>turn := t, grid := g, row_ids := ids\<rparr>)
            \<and> grid (snd (load_game s t g ids)) = g \<and> turn (snd (load_game s t g ids)) = t
            \<and> row_ids (snd (load_game s t g ids)) = ids)"
proof -
  have len: "length g \<noteq> length (grid s) \<longleftrightarrow> int (length g) \<noteq> side s"
    using rows by auto
  show ?thesis
    unfolding load_game_def list_ex_bad_item len by auto
qed

text \<open>
  The four branches of C6 at the Othello start position.
\<close>

theorem load_game_validates_witness:
  "load_game othello8 3 [] [] = (Inl (ValueError msg_turn), othello8)
   \<and> load_game othello8 2 [] [] = (Inl (ValueError msg_length), othello8)
   \<and> load_game othello8 2 (replicate 8 [Some 3]) [0..<8] = (Inl (ValueError msg_turn), othello8)
   \<and> load_game othello8 2 (replicate 8 (replicate 8 (Some 1))) [0..<8]
       = (Inr (), othello8\<lparr>turn := 2, grid := replicate 8 (replicate 8 (Some 1)),
                              row_ids := [0..<8]\<rparr>)"
proof -
  have rows: "int (length (grid othello8)) = side othello8"
    by (simp add: othello8_def)
  have a: "load_game othello8 3 [] [] = (Inl (ValueError msg_turn), othello8)"
    using load_game_validates[OF rows, of 3 "[]" "[]"] by (simp add: othello8_def)
  have b: "load_game othello8 2 [] [] = (Inl (ValueError msg_length), othello8)"
    using load_game_validates[OF rows, of 2 "[]" "[]"] by (simp add: othello8_def)
  have c: "load_game othello8 2 (replicate 8 [Some 3]) [0..<8]
      = (Inl (ValueError msg_turn), othello8)"
    using load_game_validates[OF rows, of 2 "replicate 8 [Some 3]" "[0..<8]"]
    by (simp add: othello8_def valid_item_def)
  have d: "load_game othello8 2 (replicate 8 (replicate 8 (Some 1))) [0..<8]
       = (Inr (), othello8\<lparr>turn := 2, grid := replicate 8 (replicate 8 (Some 1)),
                              row_ids := [0..<8]\<rparr>)"
    using load_game_validates[OF rows, of 2 "replicate 8 (replicate 8 (Some 1))" "[0..<8]"]
    by (simp add: othello8_def valid_item_def)
  from a b c d show ?thesis by blast
qed

subsection \<open>Well-formed boards\<close>

lemma py_get_nth: "0 \<le> i \<Longrightarrow> i < int (length xs) \<Longrightarrow> py_get xs i = Inr (xs ! nat i)"
  by (simp add: py_get_def py_slot_def)

lemma grid_get_cell_at:
  assumes "shape_ok s" "in_bounds s p"
  shows "grid_get (grid s) (fst p) (snd p) = Inr (cell_at s p)"
proof -
  obtain r c where p: "p = (r, c)" by (cases p)
  from assms p have r: "0 \<le> r" "r < int (length (grid s))" and c: "0 \<le> c" "c < side s"
    by (auto simp: shape_ok_def in_bounds_def)
  from r have "grid s ! nat r \<in> set (grid s)" by (intro nth_mem) simp
  with assms(1) c have c': "c < int (length (grid s ! nat r))" by (simp add: shape_ok_def)
  show ?thesis
    unfolding p grid_get_def cell_at_def
    by (simp add: py_get_nth[OF r] py_get_nth[OF c(1) c'])
qed

lemma piece_at_cell_at:
  "shape_ok s \<Longrightarrow> in_bounds s p \<Longrightarrow> piece_at s p = Inr (cell_at s p)"
  by (simp add: piece_at_def grid_get_cell_at)

lemma ray_cell_0: "ray_cell p d 0 = p"
  by (simp add: ray_cell_def)

lemma ray_cell_1: "ray_cell p d (Suc 0) = (fst p + fst (shift d), snd p + snd (shift d))"
  by (simp add: ray_cell_def)

lemma ray_cell_shift: "ray_cell (ray_cell p d (Suc 0)) d n = ray_cell p d (Suc n)"
  by (simp add: ray_cell_def algebra_simps)

lemma opponent_at_iff: "opponent_at s player q \<longleftrightarrow> cell_at s q \<noteq> None \<and> cell_at s q \<noteq> Some player"
  by (auto simp: opponent_at_def split: option.splits)

lemma lands_here:
  "\<not> opponent_at s player x \<Longrightarrow> in_bounds s x \<Longrightarrow>
     (\<exists>j. lands s player x d j) \<longleftrightarrow> cell_at s x = Some player"
proof
  assume no: "\<not> opponent_at s player x" and "\<exists>j. lands s player x d j"
  then obtain j where j: "lands s player x d j" by blast
  have "j = 0"
  proof (rule ccontr)
    assume "j \<noteq> 0"
    then have "0 < j" by simp
    with j have "opponent_at s player (ray_cell x d 0)" unfolding lands_def by blast
    with no show False by (simp add: ray_cell_0)
  qed
  with j show "cell_at s x = Some player" by (simp add: lands_def ray_cell_0)
next
  assume "in_bounds s x" "cell_at s x = Some player"
  then have "lands s player x d 0" by (simp add: lands_def ray_cell_0)
  then show "\<exists>j. lands s player x d j" ..
qed

lemma lands_Suc:
  assumes "opponent_at s player x" "in_bounds s x"
  shows "lands s player x d (Suc j) \<longleftrightarrow> lands s player (ray_cell x d (Suc 0)) d j"
proof -
  have all: "(\<forall>i < Suc j. in_bounds s (ray_cell x d i) \<and> opponent_at s player (ray_cell x d i))
      \<longleftrightarrow> (\<forall>i < j. in_bounds s (ray_cell x d (Suc i)) \<and> opponent_at s player (ray_cell x d (Suc i)))"
    using assms by (auto simp: less_Suc_eq_0_disj ray_cell_0)
  show ?thesis
    unfolding lands_def all ray_cell_shift ..
qed

lemma lands_not_0: "opponent_at s player x \<Longrightarrow> \<not> lands s player x d 0"
  by (auto simp: lands_def ray_cell_0 opponent_at_iff)

lemma lands_step:
  assumes "opponent_at s player x" "in_bounds s x"
  shows "(\<exists>j. lands s player x d j) \<longleftrightarrow> (\<exists>j. lands s player (ray_cell x d (Suc 0)) d j)"
proof
  assume "\<exists>j. lands s player x d j"
  then obtain j where j: "lands s player x d j" by blast
  with lands_not_0[OF assms(1)] obtain j' where "j = Suc j'" by (cases j) auto
  with j lands_Suc[OF assms] show "\<exists>j. lands s player (ray_cell x d (Suc 0)) d j" by blast
next
  assume "\<exists>j. lands s player (ray_cell x d (Suc 0)) d j"
  with lands_Suc[OF assms] show "\<exists>j. lands s player x d j" by blast
qed

lemma lands_needs_bounds: "lands s player x d j \<Longrightarrow> in_bounds s x"
  by (cases j) (auto simp: lands_def ray_cell_0)

lemma check_walk_stop:
  "loc = None \<or> loc = Some player \<Longrightarrow> check_walk s player d p loc = Inr (Some (p, loc))"
  by (subst check_walk.simps) auto

lemma check_walk_off:
  "loc \<noteq> None \<Longrightarrow> loc \<noteq> Some player \<Longrightarrow> \<not> in_bounds s (ray_cell p d (Suc 0)) \<Longrightarrow>
     check_walk s player d p loc = Inr None"
  by (subst check_walk.simps) (simp add: ray_cell_1 Let_def)

lemma check_walk_on:
  "loc \<noteq> None \<Longrightarrow> loc \<noteq> Some player \<Longrightarrow> in_bounds s (ray_cell p d (Suc 0)) \<Longrightarrow>
     check_walk s player d p loc =
       (case grid_get (grid s) (fst (ray_cell p d (Suc 0))) (snd (ray_cell p d (Suc 0))) of
          Inl e \<Rightarrow> Inl e
        | Inr piece' \<Rightarrow> check_walk s player d (ray_cell p d (Suc 0)) piece')"
  by (subst check_walk.simps) (simp add: ray_cell_1 Let_def split: sum.splits)

lemma check_walk_lands:
  "shape_ok s \<Longrightarrow> in_bounds s x \<Longrightarrow> loc = cell_at s x \<Longrightarrow>
     \<exists>res. check_walk s player d x loc = Inr res
        \<and> ((\<exists>q. res = Some (q, Some player)) \<longleftrightarrow> (\<exists>j. lands s player x d j))
        \<and> (\<forall>q piece. res = Some (q, piece) \<longrightarrow> in_bounds s q)"
proof (induction s player d x loc rule: check_walk.induct)
  case (1 s player d p loc_piece)
  note shape = "1.prems"(1) and inx = "1.prems"(2) and loc = "1.prems"(3)
  show ?case
  proof (cases "loc_piece \<noteq> None \<and> loc_piece \<noteq> Some player")
    case False
    then have res: "check_walk s player d p loc_piece = Inr (Some (p, loc_piece))"
      by (intro check_walk_stop) simp
    from False loc have "\<not> opponent_at s player p" by (simp add: opponent_at_iff)
    from lands_here[OF this inx, of d] inx loc res
    show ?thesis by auto
  next
    case True
    then have opp: "opponent_at s player p" using loc by (simp add: opponent_at_iff)
    define q where "q = (fst p + fst (shift d), snd p + snd (shift d))"
    have q1: "q = ray_cell p d (Suc 0)" by (simp add: q_def ray_cell_1)
    show ?thesis
    proof (cases "in_bounds s q")
      case False
      with True have res: "check_walk s player d p loc_piece = Inr None"
        by (intro check_walk_off) (simp_all add: q1)
      have "\<not> (\<exists>j. lands s player q d j)"
        using False lands_needs_bounds by blast
      with lands_step[OF opp inx, of d] q1 have "\<not> (\<exists>j. lands s player p d j)" by simp
      with res show ?thesis by simp
    next
      case inb: True
      from grid_get_cell_at[OF shape inb]
      have get: "grid_get (grid s) (fst q) (snd q) = Inr (cell_at s q)" .
      from True inb get have res: "check_walk s player d p loc_piece
          = check_walk s player d q (cell_at s q)"
        by (simp add: check_walk_on q1)
      from "1.IH"[OF True q_def _ get shape inb refl] inb
      obtain r where r: "check_walk s player d q (cell_at s q) = Inr r"
        "(\<exists>q'. r = Some (q', Some player)) \<longleftrightarrow> (\<exists>j. lands s player q d j)"
        "\<forall>q' piece. r = Some (q', piece) \<longrightarrow> in_bounds s q'" by auto
      from lands_step[OF opp inx, of d] q1 r res show ?thesis by auto
    qed
  qed
qed

lemma ray_captures_lands:
  "ray_captures least s player p d \<longleftrightarrow> (\<exists>k \<ge> least. lands s player (ray_cell p d (Suc 0)) d k)"
proof -
  have "\<And>k. ((\<forall>i. 1 \<le> i \<and> i \<le> k \<longrightarrow> in_bounds s (ray_cell p d i) \<and> opponent_at s player (ray_cell p d i))
        \<and> in_bounds s (ray_cell p d (k + 1))
        \<and> cell_at s (ray_cell p d (k + 1)) = Some player)
     \<longleftrightarrow> lands s player (ray_cell p d (Suc 0)) d k"
  proof -
    fix k
    have "(\<forall>i. 1 \<le> i \<and> i \<le> k \<longrightarrow> in_bounds s (ray_cell p d i) \<and> opponent_at s player (ray_cell p d i))
       \<longleftrightarrow> (\<forall>i < k. in_bounds s (ray_cell p d (Suc i)) \<and> opponent_at s player (ray_cell p d (Suc i)))"
    proof (intro iffI allI impI)
      fix i assume a: "\<forall>i. 1 \<le> i \<and> i \<le> k \<longrightarrow> in_bounds s (ray_cell p d i) \<and> opponent_at s player (ray_cell p d i)"
        and "i < k"
      then have "1 \<le> Suc i \<and> Suc i \<le> k" by simp
      with a show "in_bounds s (ray_cell p d (Suc i)) \<and> opponent_at s player (ray_cell p d (Suc i))" by blast
    next
      fix i assume a: "\<forall>i < k. in_bounds s (ray_cell p d (Suc i)) \<and> opponent_at s player (ray_cell p d (Suc i))"
        and i: "1 \<le> i \<and> i \<le> k"
      then obtain i' where "i = Suc i'" "i' < k" by (cases i) auto
      with a show "in_bounds s (ray_cell p d i) \<and> opponent_at s player (ray_cell p d i)" by blast
    qed
    then show "((\<forall>i. 1 \<le> i \<and> i \<le> k \<longrightarrow> in_bounds s (ray_cell p d i) \<and> opponent_at s player (ray_cell p d i))
        \<and> in_bounds s (ray_cell p d (k + 1))
        \<and> cell_at s (ray_cell p d (k + 1)) = Some player)
     \<longleftrightarrow> lands s player (ray_cell p d (Suc 0)) d k"
      by (simp add: lands_def ray_cell_shift)
  qed
  then show ?thesis unfolding ray_captures_def by simp
qed

lemma check_direction_captures:
  assumes shape: "shape_ok s"
  shows "\<exists>res. check_direction s player p d = Inr res
            \<and> (res \<noteq> None \<longleftrightarrow> ray_captures 1 s player p d)"
proof -
  define x where "x = ray_cell p d (Suc 0)"
  have x: "(fst p + fst (shift d), snd p + snd (shift d)) = x" by (simp add: x_def ray_cell_1)
  have spec: "ray_captures 1 s player p d \<longleftrightarrow> (\<exists>k \<ge> 1. lands s player x d k)"
    by (simp add: ray_captures_lands x_def)
  show ?thesis
  proof (cases "in_bounds s x")
    case False
    then have "check_direction s player p d = Inr None"
      by (simp add: check_direction_def x Let_def)
    moreover have "\<not> (\<exists>k \<ge> 1. lands s player x d k)"
      using False lands_needs_bounds by blast
    ultimately show ?thesis using spec by simp
  next
    case inb: True
    from grid_get_cell_at[OF shape inb]
    have get: "grid_get (grid s) (fst x) (snd x) = Inr (cell_at s x)" .
    show ?thesis
    proof (cases "opponent_at s player x")
      case False
      then have "check_direction s player p d = Inr None"
        using inb get by (auto simp: check_direction_def x Let_def opponent_at_iff)
      moreover have "\<not> (\<exists>k \<ge> 1. lands s player x d k)"
      proof
        assume "\<exists>k \<ge> 1. lands s player x d k"
        then obtain k where "1 \<le> k" "lands s player x d k" by blast
        then have "opponent_at s player (ray_cell x d 0)" unfolding lands_def by auto
        with False show False by (simp add: ray_cell_0)
      qed
      ultimately show ?thesis using spec by simp
    next
      case opp: True
      from check_walk_lands[OF shape inb refl, of player d]
      obtain r where r: "check_walk s player d x (cell_at s x) = Inr r"
        "(\<exists>q. r = Some (q, Some player)) \<longleftrightarrow> (\<exists>j. lands s player x d j)"
        "\<forall>q piece. r = Some (q, piece) \<longrightarrow> in_bounds s q" by blast
      have cd: "check_direction s player p d =
          (case r of None \<Rightarrow> Inr None
           | Some (q, piece) \<Rightarrow> if piece = Some player then Inr (Some q) else Inr None)"
        using inb get opp r(1) r(3)
        by (auto simp: check_direction_def x Let_def opponent_at_iff split: option.splits)
      have any: "(\<exists>j. lands s player x d j) \<longleftrightarrow> (\<exists>k \<ge> 1. lands s player x d k)"
      proof
        assume "\<exists>j. lands s player x d j"
        then obtain j where j: "lands s player x d j" by blast
        with lands_not_0[OF opp] have "1 \<le> j" by (cases j) auto
        with j show "\<exists>k \<ge> 1. lands s player x d k" by blast
      qed blast
      show ?thesis
      proof (cases "\<exists>q. r = Some (q, Some player)")
        case True
        then obtain q where "r = Some (q, Some player)" by blast
        with cd have "check_direction s player p d = Inr (Some q)" by simp
        with True r(2) any spec show ?thesis by simp
      next
        case False
        with cd have "check_direction s player p d = Inr None"
          by (auto split: option.splits)
        with False r(2) any spec show ?thesis by simp
      qed
    qed
  qed
qed

lemma any_capture_captures:
  assumes "shape_ok s"
  shows "any_capture s player p ds = Inr (\<exists>d \<in> set ds. ray_captures 1 s player p d)"
proof (induction ds)
  case Nil
  then show ?case by simp
next
  case (Cons d ds)
  from check_direction_captures[OF assms, of player p d]
  obtain res where res: "check_direction s player p d = Inr res"
    "res \<noteq> None \<longleftrightarrow> ray_captures 1 s player p d" by blast
  show ?case
  proof (cases res)
    case None
    with res Cons.IH show ?thesis by simp
  next
    case (Some q)
    with res show ?thesis by simp
  qed
qed

lemma pieces_at_cells:
  assumes "shape_ok s"
  shows "\<forall>sq \<in> set sqs. in_bounds s sq \<Longrightarrow> pieces_at s sqs = Inr (map (cell_at s) sqs)"
  by (induction sqs) (simp_all add: piece_at_cell_at[OF assms])

lemma set_directions: "set directions = UNIV"
proof -
  have "d \<in> set directions" for d by (cases d) (simp_all add: directions_def)
  then show ?thesis by blast
qed

text \<open>
  Claim C1, as amended.  In a state with a \<open>side\<close> by \<open>side\<close> grid whose centre block
  is fully occupied, \<open>legal_move\<close> at an in-bounds empty position returns whether some
  of the eight rays captures, where a ray captures when it passes through ONE or more
  cells of other players and then lands on a cell of the player to move, all within
  bounds (\<open>ray_captures 1\<close>).
\<close>

theorem legal_move_regime_B:
  assumes shape: "shape_ok s"
    and filled: "center_filled s"
    and inb: "in_bounds s p"
    and empty: "cell_at s p = None"
  shows "legal_move s p = Inr (\<exists>d \<in> set directions. ray_captures 1 s (turn s) p d)"
proof -
  from filled have cin: "\<forall>sq \<in> set (center_pieces s). in_bounds s sq"
    and cocc: "\<forall>sq \<in> set (center_pieces s). cell_at s sq \<noteq> None"
    by (simp_all add: center_filled_def list_all_iff)
  have pieces: "pieces_at s (center_pieces s) = Inr (map (cell_at s) (center_pieces s))"
    by (rule pieces_at_cells[OF shape cin])
  have none: "None \<notin> set (map (cell_at s) (center_pieces s))"
    using cocc by auto
  from grid_get_cell_at[OF shape inb] empty
  have here: "grid_get (grid s) (fst p) (snd p) = Inr None" by simp
  show ?thesis
    unfolding legal_move_def using inb
    by (simp only: here pieces Let_def none any_capture_captures[OF shape] sum.case if_False
        if_True simp_thms)
qed

lemma shape_ok_othello8: "shape_ok othello8"
  by (simp add: shape_ok_def othello8_def)

lemma center_filled_othello8: "center_filled othello8"
  by code_simp

text \<open>
  The theorem at the Othello start position and the legal move (2,3).
\<close>

theorem legal_move_regime_B_witness:
  "legal_move othello8 (2, 3) = Inr True
   \<and> legal_move othello8 (2, 3)
       = Inr (\<exists>d \<in> set directions. ray_captures 1 othello8 (turn othello8) (2, 3) d)"
proof -
  have inb: "in_bounds othello8 (2, 3)" by (simp add: in_bounds_def othello8_def)
  have empty: "cell_at othello8 (2, 3) = None" by code_simp
  have "legal_move othello8 (2, 3) = Inr True" by code_simp
  with legal_move_regime_B[OF shape_ok_othello8 center_filled_othello8 inb empty]
  show ?thesis by simp
qed

text \<open>
  Claim C1 as stated counts a ray that passes through ZERO opposing cells
  (\<open>ray_captures 0\<close>).  At the Othello start position the cell (2,4) is empty, the cell
  below it holds a piece of player 1, whose turn it is, so the ray to the south captures
  in that sense; \<open>legal_move\<close> returns \<open>False\<close>, because \<open>_check_direction\<close> walks
  only when the adjacent cell holds a piece of another player.
\<close>

theorem zero_length_ray_counterexample:
  "shape_ok othello8 \<and> center_filled othello8 \<and> in_bounds othello8 (2, 4)
   \<and> cell_at othello8 (2, 4) = None
   \<and> (\<exists>d \<in> set directions. ray_captures 0 othello8 (turn othello8) (2, 4) d)
   \<and> legal_move othello8 (2, 4) = Inr False"
proof -
  have inb: "in_bounds othello8 (2, 4)" by (simp add: in_bounds_def othello8_def)
  have empty: "cell_at othello8 (2, 4) = None" by code_simp
  have a: "in_bounds othello8 (ray_cell (2, 4) Dir_S 1)" by code_simp
  have b: "cell_at othello8 (ray_cell (2, 4) Dir_S 1) = Some (turn othello8)" by code_simp
  have "ray_captures 0 othello8 (turn othello8) (2, 4) Dir_S"
    unfolding ray_captures_def using a b by (intro exI[of _ 0]) simp
  moreover have "Dir_S \<in> set directions" by (simp add: directions_def)
  ultimately have ray: "\<exists>d \<in> set directions. ray_captures 0 othello8 (turn othello8) (2, 4) d"
    by blast
  have "legal_move othello8 (2, 4) = Inr False" by code_simp
  with shape_ok_othello8 center_filled_othello8 inb empty ray show ?thesis by blast
qed

subsection \<open>Legality while the centre is open\<close>

text \<open>
  The constructor checks the parity of \<open>side\<close> and \<open>players\<close> and that \<open>side\<close>
  is at least 3, and not that the \<open>players\<close> by \<open>players\<close> centre block fits the
  board.  With more players than the side is long, \<open>_center_pieces\<close> lists squares
  off the board, and \<open>legal_move\<close> asks \<open>piece_at\<close> for each of them.
\<close>

lemma in_enumerate_0: "x \<in> set (enumerate 0 xs) \<longleftrightarrow> (\<exists>i < length xs. x = (i, xs ! i))"
  by (cases x) (auto simp: in_set_enumerate_eq)

lemma scan_positions_set:
  "set (scan_positions g) = {(int i, int j) | i j. i < length g \<and> j < length (g ! i)}"
proof (intro set_eqI iffI)
  fix q assume "q \<in> set (scan_positions g)"
  then obtain x where x: "x \<in> set (enumerate 0 g)"
    and q: "q \<in> (case x of (i, row) \<Rightarrow> (\<lambda>j. (int i, int j)) ` {0..<length row})"
    by (auto simp: scan_positions_def)
  from x obtain i where i: "i < length g" "x = (i, g ! i)" by (auto simp: in_enumerate_0)
  with q obtain j where "j < length (g ! i)" "q = (int i, int j)" by auto
  with i show "q \<in> {(int i, int j) | i j. i < length g \<and> j < length (g ! i)}" by blast
next
  fix q assume "q \<in> {(int i, int j) | i j. i < length g \<and> j < length (g ! i)}"
  then obtain i j where ij: "q = (int i, int j)" "i < length g" "j < length (g ! i)" by blast
  then have mem: "(i, g ! i) \<in> set (enumerate 0 g)" by (simp add: in_enumerate_0)
  have "q \<in> set ((\<lambda>(i, row). map (\<lambda>j. (int i, int j)) [0..<length row]) (i, g ! i))"
    using ij by simp
  then show "q \<in> set (scan_positions g)"
    unfolding scan_positions_def set_concat set_map by (rule UN_I[OF imageI[OF mem]])
qed

lemma in_bounds_nat:
  "in_bounds s q \<longleftrightarrow> (\<exists>i j. q = (int i, int j) \<and> int i < side s \<and> int j < side s)"
proof
  assume "in_bounds s q"
  then have "q = (int (nat (fst q)), int (nat (snd q)))" "int (nat (fst q)) < side s" "int (nat (snd q)) < side s"
    by (auto simp: in_bounds_def split: prod.splits)
  then show "\<exists>i j. q = (int i, int j) \<and> int i < side s \<and> int j < side s" by blast
qed (auto simp: in_bounds_def)

lemma shape_ok_index:
  assumes "shape_ok s"
  shows "i < length (grid s) \<and> j < length (grid s ! i) \<longleftrightarrow> int i < side s \<and> int j < side s"
proof -
  have len: "int (length (grid s)) = side s" using assms by (simp add: shape_ok_def)
  have row: "int (length (grid s ! i)) = side s" if "i < length (grid s)"
    using assms nth_mem[OF that] by (simp add: shape_ok_def)
  show ?thesis
  proof
    assume a: "i < length (grid s) \<and> j < length (grid s ! i)"
    with row[of] len show "int i < side s \<and> int j < side s" by linarith
  next
    assume a: "int i < side s \<and> int j < side s"
    with len have i: "i < length (grid s)" by linarith
    from row[OF i] a i show "i < length (grid s) \<and> j < length (grid s ! i)" by linarith
  qed
qed

lemma scan_positions_in_bounds:
  assumes "shape_ok s"
  shows "set (scan_positions (grid s)) = {q. in_bounds s q}"
  unfolding scan_positions_set in_bounds_nat shape_ok_index[OF assms] by blast

lemma outside_occupied_iff:
  "outside_occupied s cs \<longleftrightarrow>
     (\<exists>i j. i < length (grid s) \<and> j < length (grid s ! i) \<and> (int i, int j) \<notin> set cs
        \<and> grid s ! i ! j \<noteq> None)"
proof
  assume "outside_occupied s cs"
  then obtain x where x: "x \<in> set (enumerate 0 (grid s))"
    and ex: "list_ex (\<lambda>(j, iter_piece). (int (fst x), int j) \<notin> set cs \<and> iter_piece \<noteq> None)
               (enumerate 0 (snd x))"
    unfolding outside_occupied_def list_ex_iff[of _ "enumerate 0 (grid s)"]
    by (auto simp: case_prod_unfold)
  from x obtain i where i: "i < length (grid s)" "x = (i, grid s ! i)"
    unfolding in_enumerate_0 by blast
  from ex obtain y where y: "y \<in> set (enumerate 0 (snd x))"
    and py: "(int (fst x), int (fst y)) \<notin> set cs \<and> snd y \<noteq> None"
    unfolding list_ex_iff by (auto simp: case_prod_unfold)
  from y i obtain j where j: "j < length (grid s ! i)" "y = (j, grid s ! i ! j)"
    unfolding in_enumerate_0 by auto
  from py i j have "(int i, int j) \<notin> set cs \<and> grid s ! i ! j \<noteq> None" by simp
  with i(1) j(1) show "\<exists>i j. i < length (grid s) \<and> j < length (grid s ! i) \<and> (int i, int j) \<notin> set cs
        \<and> grid s ! i ! j \<noteq> None" by blast
next
  assume "\<exists>i j. i < length (grid s) \<and> j < length (grid s ! i) \<and> (int i, int j) \<notin> set cs
        \<and> grid s ! i ! j \<noteq> None"
  then obtain i j where ij: "i < length (grid s)" "j < length (grid s ! i)"
    "(int i, int j) \<notin> set cs" "grid s ! i ! j \<noteq> None" by blast
  have y: "(j, grid s ! i ! j) \<in> set (enumerate 0 (grid s ! i))"
    unfolding in_enumerate_0 using ij(2) by blast
  have "list_ex (\<lambda>(j, iter_piece). (int i, int j) \<notin> set cs \<and> iter_piece \<noteq> None)
          (enumerate 0 (grid s ! i))"
    unfolding list_ex_iff using ij(3,4) by (intro bexI[OF _ y]) simp
  moreover have "(i, grid s ! i) \<in> set (enumerate 0 (grid s))"
    unfolding in_enumerate_0 using ij(1) by blast
  ultimately show "outside_occupied s cs"
    unfolding outside_occupied_def list_ex_iff[of _ "enumerate 0 (grid s)"]
    by (intro bexI[of _ "(i, grid s ! i)"]) simp_all
qed

lemma outside_occupied_cells:
  assumes "shape_ok s"
  shows "outside_occupied s cs \<longleftrightarrow> (\<exists>q. in_bounds s q \<and> q \<notin> set cs \<and> cell_at s q \<noteq> None)"
proof
  assume "outside_occupied s cs"
  then obtain i j where ij: "i < length (grid s) \<and> j < length (grid s ! i)"
    "(int i, int j) \<notin> set cs" "grid s ! i ! j \<noteq> None"
    unfolding outside_occupied_iff by blast
  from ij(1) have "in_bounds s (int i, int j)"
    unfolding shape_ok_index[OF assms] by (simp add: in_bounds_def)
  moreover have "cell_at s (int i, int j) \<noteq> None" using ij(3) by (simp add: cell_at_def)
  ultimately show "\<exists>q. in_bounds s q \<and> q \<notin> set cs \<and> cell_at s q \<noteq> None"
    using ij(2) by blast
next
  assume "\<exists>q. in_bounds s q \<and> q \<notin> set cs \<and> cell_at s q \<noteq> None"
  then obtain q where q: "in_bounds s q" "q \<notin> set cs" "cell_at s q \<noteq> None" by blast
  from q(1) obtain i j where ij: "q = (int i, int j)" "int i < side s \<and> int j < side s"
    unfolding in_bounds_nat by blast
  from ij(2) have "i < length (grid s) \<and> j < length (grid s ! i)"
    unfolding shape_ok_index[OF assms] .
  moreover have "grid s ! i ! j \<noteq> None" using q(3) ij(1) by (simp add: cell_at_def)
  ultimately show "outside_occupied s cs"
    unfolding outside_occupied_iff using q(2) ij(1) by blast
qed

lemma center_pieces_set:
  "set (center_pieces s) =
     {(side s - players s) div 2 ..< side s - (side s - players s) div 2}
       \<times> {(side s - players s) div 2 ..< side s - (side s - players s) div 2}"
  by (auto simp: center_pieces_def Let_def)

lemma center_on_board:
  assumes "players s \<le> side s"
  shows "\<forall>sq \<in> set (center_pieces s). in_bounds s sq"
proof -
  have "0 \<le> (side s - players s) div 2" using assms by simp
  then show ?thesis
    unfolding center_pieces_set by (auto simp: in_bounds_def)
qed

lemma legal_move_open_center:
  assumes shape: "shape_ok s"
    and fits: "players s \<le> side s"
    and open_cell: "\<exists>sq \<in> set (center_pieces s). cell_at s sq = None"
    and outside: "\<forall>q. in_bounds s q \<and> q \<notin> set (center_pieces s) \<longrightarrow> cell_at s q = None"
    and inb: "in_bounds s p"
  shows "legal_move s p = Inr (p \<in> set (center_pieces s) \<and> cell_at s p = None)"
proof -
  have pieces: "pieces_at s (center_pieces s) = Inr (map (cell_at s) (center_pieces s))"
    by (rule pieces_at_cells[OF shape center_on_board[OF fits]])
  have some: "None \<in> set (map (cell_at s) (center_pieces s))"
    using open_cell by force
  have no_out: "\<not> outside_occupied s (center_pieces s)"
  proof
    assume "outside_occupied s (center_pieces s)"
    then obtain q where q: "in_bounds s q" "q \<notin> set (center_pieces s)" "cell_at s q \<noteq> None"
      unfolding outside_occupied_cells[OF shape] by blast
    from outside q(1,2) have "cell_at s q = None" by blast
    with q(3) show False by contradiction
  qed
  note here = grid_get_cell_at[OF shape inb]
  show ?thesis
  proof (cases "cell_at s p = None")
    case True
    then show ?thesis
      unfolding legal_move_def using inb
      by (simp only: here pieces Let_def some no_out sum.case if_False if_True simp_thms)
  next
    case False
    then show ?thesis
      unfolding legal_move_def using inb
      by (simp only: here sum.case if_False if_True simp_thms)
  qed
qed

text \<open>
  What holds of the rule of the open centre: in a state with a \<open>side\<close> by \<open>side\<close>
  grid whose centre block lies on the board (\<open>players \<le> side\<close>), is not fully
  occupied, and outside of which no cell is occupied, \<open>legal_move\<close> at an in-bounds
  position returns whether the position lies in the centre block and is empty.
  (\<open>center_pieces_set\<close>: the centre block is the square of rows and columns
  \<open>[(side - players) div 2, side - (side - players) div 2)\<close>.)
\<close>

theorem legal_move_bootstrap:
  assumes "shape_ok s"
    and "players s \<le> side s"
    and "\<exists>sq \<in> set (center_pieces s). cell_at s sq = None"
    and "\<forall>q. in_bounds s q \<and> q \<notin> set (center_pieces s) \<longrightarrow> cell_at s q = None"
    and "in_bounds s p"
  shows "legal_move s p = Inr (p \<in> set (center_pieces s) \<and> cell_at s p = None)"
  using assms by (rule legal_move_open_center)

text \<open>
  The theorem on a 4 by 4 board with one piece in the centre: an empty centre cell, the
  occupied centre cell, and an empty cell outside the centre.
\<close>

theorem legal_move_bootstrap_witness:
  "legal_move opening4 (1, 2) = Inr True
   \<and> legal_move opening4 (1, 1) = Inr False
   \<and> legal_move opening4 (0, 2) = Inr False"
proof -
  have shape: "shape_ok opening4" by (simp add: shape_ok_def opening4_def)
  have fits: "players opening4 \<le> side opening4" by (simp add: opening4_def)
  have open_cell: "\<exists>sq \<in> set (center_pieces opening4). cell_at opening4 sq = None"
    by code_simp
  have "\<forall>q \<in> set (scan_positions (grid opening4)).
          \<not> (q \<notin> set (center_pieces opening4) \<and> cell_at opening4 q \<noteq> None)"
    by code_simp
  then have outside: "\<forall>q. in_bounds opening4 q \<and> q \<notin> set (center_pieces opening4)
        \<longrightarrow> cell_at opening4 q = None"
    unfolding scan_positions_in_bounds[OF shape] by blast
  have a: "in_bounds opening4 (1, 2)" and b: "in_bounds opening4 (1, 1)"
    and c: "in_bounds opening4 (0, 2)"
    by (simp_all add: in_bounds_def opening4_def)
  have va: "((1, 2) \<in> set (center_pieces opening4) \<and> cell_at opening4 (1, 2) = None) = True"
    by code_simp
  have vb: "((1, 1) \<in> set (center_pieces opening4) \<and> cell_at opening4 (1, 1) = None) = False"
    by code_simp
  have vc: "((0, 2) \<in> set (center_pieces opening4) \<and> cell_at opening4 (0, 2) = None) = False"
    by code_simp
  from legal_move_bootstrap[OF shape fits open_cell outside a]
    legal_move_bootstrap[OF shape fits open_cell outside b]
    legal_move_bootstrap[OF shape fits open_cell outside c]
  show ?thesis unfolding va vb vc by blast
qed

lemma Reversi_init_crowded3: "Reversi_init 3 5 False = Inr crowded3"
  by code_simp

text \<open>
  Claim C9 fails in the engine \<open>Reversi(3, 5, False)\<close>, which the constructor
  accepts.  Its board is empty, so the centre block is not fully occupied and no cell
  outside of it is occupied; the position (0,0) is within the bounds, lies in the centre
  block (rows and columns -1 to 3) and is empty, and the claim has \<open>legal_move\<close>
  return \<open>True\<close> there.  \<open>legal_move\<close> raises the \<open>ValueError\<close> of
  \<open>piece_at\<close>, which it calls first at the centre square (-1,-1); its docstring
  promises that exception for a position outside the bounds only.
\<close>

theorem legal_move_raises_crowded3:
  "Reversi_init 3 5 False = Inr crowded3
   \<and> concat (grid crowded3) = replicate 9 None
   \<and> in_bounds crowded3 (0, 0)
   \<and> (0, 0) \<in> set (center_pieces crowded3)
   \<and> piece_at crowded3 (0, 0) = Inr None
   \<and> hd (center_pieces crowded3) = (- 1, - 1)
   \<and> piece_at crowded3 (- 1, - 1) = Inl (ValueError msg_bounds)
   \<and> legal_move crowded3 (0, 0) = Inl (ValueError msg_bounds)"
proof -
  have 1: "concat (grid crowded3) = replicate 9 None" by code_simp
  have 2: "in_bounds crowded3 (0, 0)" by code_simp
  have 3: "(0, 0) \<in> set (center_pieces crowded3)" by code_simp
  have 4: "piece_at crowded3 (0, 0) = Inr None" by code_simp
  have 5: "hd (center_pieces crowded3) = (- 1, - 1)" by code_simp
  have 6: "piece_at crowded3 (- 1, - 1) = Inl (ValueError msg_bounds)" by code_simp
  have 7: "legal_move crowded3 (0, 0) = Inl (ValueError msg_bounds)" by code_simp
  from Reversi_init_crowded3 1 2 3 4 5 6 7 show ?thesis by blast
qed

lemma shape_ok_turn [simp]: "shape_ok (s\<lparr>turn := q\<rparr>) = shape_ok s"
  by (simp add: shape_ok_def)

lemma in_bounds_turn [simp]: "in_bounds (s\<lparr>turn := q\<rparr>) p = in_bounds s p"
  by (simp add: in_bounds_def)

lemma legal_move_total:
  assumes shape: "shape_ok s" and fits: "players s \<le> side s" and inb: "in_bounds s p"
  shows "\<exists>b. legal_move s p = Inr b"
proof -
  have pieces: "pieces_at s (center_pieces s) = Inr (map (cell_at s) (center_pieces s))"
    by (rule pieces_at_cells[OF shape center_on_board[OF fits]])
  note here = grid_get_cell_at[OF shape inb]
  show ?thesis
    unfolding legal_move_def using inb
    by (auto simp: here pieces Let_def any_capture_captures[OF shape])
qed

lemma collect_moves_filter:
  assumes shape: "shape_ok s" and fits: "players s \<le> side s"
  shows "\<forall>p \<in> set ps. in_bounds s p \<Longrightarrow>
     collect_moves s ps = Inr (filter (\<lambda>p. legal_move s p = Inr True) ps)"
proof (induction ps)
  case Nil
  then show ?case by simp
next
  case (Cons p ps)
  then have "in_bounds s p" by simp
  from legal_move_total[OF shape fits this] obtain b where "legal_move s p = Inr b" by blast
  with Cons show ?case by simp
qed

lemma available_moves_filter:
  assumes "shape_ok s" "players s \<le> side s"
  shows "available_moves s = Inr (filter (\<lambda>p. legal_move s p = Inr True) (scan_positions (grid s)))"
  unfolding available_moves_def
  by (rule collect_moves_filter[OF assms]) (simp add: scan_positions_in_bounds[OF assms(1)])

lemma done_loop_total:
  assumes "shape_ok s" "players s \<le> side s"
  shows "\<exists>b. fst (done_loop s ps nm) = Inr b"
  using assms
proof (induction ps arbitrary: s nm)
  case Nil
  then show ?case by simp
next
  case (Cons q ps)
  have ok: "shape_ok (s\<lparr>turn := q\<rparr>)" "players (s\<lparr>turn := q\<rparr>) \<le> side (s\<lparr>turn := q\<rparr>)"
    using Cons.prems by simp_all
  from available_moves_filter[OF ok] obtain ms where ms: "available_moves (s\<lparr>turn := q\<rparr>) = Inr ms"
    by blast
  from Cons.IH[OF ok] ms show ?case by (cases nm) simp_all
qed

lemma done_prop_total:
  assumes "shape_ok s" "players s \<le> side s"
  shows "\<exists>b. fst (done_prop s) = Inr b"
  unfolding done_prop_fst by (rule done_loop_total[OF assms])

lemma done_prop_snd: "fst (done_prop s) = Inr b \<Longrightarrow> snd (done_prop s) = s"
  using done_prop_frame[of s b "snd (done_prop s)"] by (cases "done_prop s") simp

text \<open>
  What holds of \<open>done\<close>: it returns \<open>True\<close> exactly when \<open>available_moves\<close>,
  computed with the turn set to that player, is the empty list for every player from 1
  to \<open>players\<close>; whenever \<open>done\<close> returns, the engine (turn and grid) is as before
  the call; and in every state with a \<open>side\<close> by \<open>side\<close> grid whose centre block
  lies on the board \<open>done\<close> does return.
\<close>

theorem done_prop_spec:
  "(fst (done_prop s) = Inr True \<longleftrightarrow>
      (\<forall>q \<in> {1..players s}. available_moves (s\<lparr>turn := q\<rparr>) = Inr []))
   \<and> (\<forall>b. fst (done_prop s) = Inr b \<longrightarrow> snd (done_prop s) = s)
   \<and> (shape_ok s \<and> players s \<le> side s \<longrightarrow> (\<exists>b. done_prop s = (Inr b, s)))"
proof (intro conjI allI impI)
  show "fst (done_prop s) = Inr True \<longleftrightarrow>
      (\<forall>q \<in> {1..players s}. available_moves (s\<lparr>turn := q\<rparr>) = Inr [])"
    using done_prop_True_iff[of s] by simp
next
  fix b assume "fst (done_prop s) = Inr b"
  then show "snd (done_prop s) = s" by (rule done_prop_snd)
next
  assume "shape_ok s \<and> players s \<le> side s"
  then obtain b where b: "fst (done_prop s) = Inr b" using done_prop_total by blast
  from done_prop_snd[OF b] b have "done_prop s = (Inr b, s)" by (cases "done_prop s") simp
  then show "\<exists>b. done_prop s = (Inr b, s)" ..
qed

text \<open>
  The theorem at the Othello start position, where the game is not done, and at a full
  4 by 4 board, where it is.
\<close>

theorem done_prop_spec_witness:
  "done_prop othello8 = (Inr False, othello8) \<and> done_prop full4 = (Inr True, full4)
   \<and> available_moves (full4\<lparr>turn := 1\<rparr>) = Inr [] \<and> available_moves (full4\<lparr>turn := 2\<rparr>) = Inr []"
proof -
  have s8: "shape_ok othello8 \<and> players othello8 \<le> side othello8"
    by (simp add: shape_ok_def othello8_def)
  have s4: "shape_ok full4 \<and> players full4 \<le> side full4"
    by (simp add: shape_ok_def full4_def)
  have f8: "fst (done_prop othello8) = Inr False" by code_simp
  have f4: "fst (done_prop full4) = Inr True" by code_simp
  from done_prop_spec[of othello8] s8 f8 have a: "done_prop othello8 = (Inr False, othello8)"
    by auto
  from done_prop_spec[of full4] s4 f4 have b: "done_prop full4 = (Inr True, full4)"
    by auto
  have p: "players full4 = 2" by (simp add: full4_def)
  have "{1..players full4} = {1, 2}" unfolding p by auto
  with done_prop_spec[of full4] f4
  have "available_moves (full4\<lparr>turn := 1\<rparr>) = Inr [] \<and> available_moves (full4\<lparr>turn := 2\<rparr>) = Inr []"
    by simp
  with a b show ?thesis by blast
qed

text \<open>
  Claim C2 fails in the engine \<open>Reversi(3, 5, False)\<close> after
  \<open>load_game(2, [[None] * 3 for _ in range(3)])\<close>, which leaves the turn at player
  2.  \<open>done\<close> does not return a truth value: probing player 1 it raises the
  \<open>ValueError\<close> that \<open>legal_move\<close> raises at (0,0), and \<open>available_moves\<close> raises
  it for the player to move as well.  The exception passes the assignment that restores
  the turn, and the engine is left with the turn at player 1.
\<close>

theorem done_raises_crowded3:
  "Reversi_init 3 5 False = Inr crowded3
   \<and> load_game crowded3 2 (replicate 3 (replicate 3 None)) [0, 1, 2]
       = (Inr (), crowded3\<lparr>turn := 2\<rparr>)
   \<and> turn (crowded3\<lparr>turn := 2\<rparr>) = 2
   \<and> available_moves (crowded3\<lparr>turn := 2\<rparr>) = Inl (ValueError msg_bounds)
   \<and> fst (done_prop (crowded3\<lparr>turn := 2\<rparr>)) = Inl (ValueError msg_bounds)
   \<and> snd (done_prop (crowded3\<lparr>turn := 2\<rparr>)) = crowded3\<lparr>turn := 1\<rparr>
   \<and> turn (snd (done_prop (crowded3\<lparr>turn := 2\<rparr>))) = 1"
proof -
  have 1: "load_game crowded3 2 (replicate 3 (replicate 3 None)) [0, 1, 2]
       = (Inr (), crowded3\<lparr>turn := 2\<rparr>)" by code_simp
  have 2: "turn (crowded3\<lparr>turn := 2\<rparr>) = 2" by simp
  have 3: "available_moves (crowded3\<lparr>turn := 2\<rparr>) = Inl (ValueError msg_bounds)" by code_simp
  have 4: "fst (done_prop (crowded3\<lparr>turn := 2\<rparr>)) = Inl (ValueError msg_bounds)" by code_simp
  have 5: "snd (done_prop (crowded3\<lparr>turn := 2\<rparr>)) = crowded3\<lparr>turn := 1\<rparr>" by code_simp
  then have 6: "turn (snd (done_prop (crowded3\<lparr>turn := 2\<rparr>))) = 1" by simp
  from Reversi_init_crowded3 1 2 3 4 5 6 show ?thesis by blast
qed

subsection \<open>Counting the pieces\<close>

lemma count_piece_keys:
  "map fst (count_piece d c) = (if c \<in> fst ` set d then map fst d else map fst d @ [c])"
  by (induction d c rule: count_piece.induct) auto

lemma count_piece_distinct: "distinct (map fst d) \<Longrightarrow> distinct (map fst (count_piece d c))"
  by (simp add: count_piece_keys)

lemma count_piece_map_of:
  "map_of (count_piece d c) = (map_of d)(c \<mapsto> (case map_of d c of None \<Rightarrow> 1 | Some n \<Rightarrow> n + 1))"
  by (induction d c rule: count_piece.induct) (auto simp: fun_eq_iff)

lemma count_cell_distinct: "distinct (map fst d) \<Longrightarrow> distinct (map fst (count_cell d c))"
  by (cases c) (simp_all add: count_cell_def count_piece_distinct)

lemma count_cell_map_of:
  "map_of (count_cell d c) k =
     (if c = Some k then Some (held d k + 1) else map_of d k)"
  by (cases c) (auto simp: count_cell_def count_piece_map_of held_def split: option.splits)

lemma foldl_count_distinct:
  "distinct (map fst d) \<Longrightarrow> distinct (map fst (foldl count_cell d cells))"
  by (induction cells arbitrary: d) (simp_all add: count_cell_distinct)

lemma foldl_count_map_of:
  "map_of (foldl count_cell d cells) k =
     (if count_list cells (Some k) = 0 then map_of d k
      else Some (held d k + int (count_list cells (Some k))))"
proof (induction cells arbitrary: d)
  case Nil
  then show ?case by simp
next
  case (Cons c cells)
  show ?case
  proof (cases "c = Some k")
    case True
    then have h: "held (count_cell d c) k = held d k + 1"
      by (simp add: held_def count_cell_map_of)
    from True h have h': "held (count_cell d (Some k)) k = held d k + 1" by simp
    show ?thesis
      using True by (simp add: Cons.IH h' count_cell_map_of)
  next
    case False
    then have h: "held (count_cell d c) k = held d k"
      by (simp add: held_def count_cell_map_of)
    show ?thesis
      using False by (simp add: Cons.IH h count_cell_map_of)
  qed
qed

lemma player_pieces_distinct: "distinct (map fst (player_pieces g))"
  unfolding player_pieces_def by (rule foldl_count_distinct) simp

lemma player_pieces_map_of:
  "map_of (player_pieces g) k =
     (if count_list (concat g) (Some k) = 0 then None
      else Some (int (count_list (concat g) (Some k))))"
  unfolding player_pieces_def by (simp add: foldl_count_map_of held_def)

lemma player_pieces_mem:
  "(k, n) \<in> set (player_pieces g) \<longleftrightarrow>
     n = int (count_list (concat g) (Some k)) \<and> 0 < n"
proof -
  have "(k, n) \<in> set (player_pieces g) \<longleftrightarrow> map_of (player_pieces g) k = Some n"
    using player_pieces_distinct[of g] by simp
  then show ?thesis by (auto simp: player_pieces_map_of)
qed

lemma foldl_max:
  "foldl (\<lambda>m pieces. if pieces > m then pieces else m) (a :: int) xs = Max (insert a (set xs))"
proof (induction xs arbitrary: a)
  case Nil
  then show ?case by simp
next
  case (Cons x xs)
  have "Max (insert (if a < x then x else a) (set xs)) = Max (insert a (insert x (set xs)))"
  proof (cases "a < x")
    case True
    have "x \<le> Max (insert x (set xs))" by simp
    with True have "a \<le> Max (insert x (set xs))" by linarith
    then have "max a (Max (insert x (set xs))) = Max (insert x (set xs))"
      by (simp add: max_def)
    moreover have "Max (insert a (insert x (set xs))) = max a (Max (insert x (set xs)))"
      by (rule Max_insert) simp_all
    ultimately show ?thesis using True by simp
  next
    case False
    have "a \<le> Max (insert a (set xs))" by simp
    with False have "x \<le> Max (insert a (set xs))" by linarith
    then have "max x (Max (insert a (set xs))) = Max (insert a (set xs))"
      by (simp add: max_def)
    moreover have "Max (insert x (insert a (set xs))) = max x (Max (insert a (set xs)))"
      by (rule Max_insert) simp_all
    ultimately show ?thesis using False by (simp add: insert_commute)
  qed
  with Cons.IH[of "if x > a then x else a"] show ?case by simp
qed

lemma maximum_pieces_Max: "maximum_pieces d = Max (insert 0 (snd ` set d))"
  by (simp add: maximum_pieces_def foldl_max)

lemma center_pieces_turn [simp]: "center_pieces (s\<lparr>turn := q\<rparr>) = center_pieces s"
  by (simp add: center_pieces_def)

lemma cell_at_turn [simp]: "cell_at (s\<lparr>turn := q\<rparr>) p = cell_at s p"
  by (simp add: cell_at_def)

lemma center_corner:
  assumes "1 \<le> players s" "players s \<le> side s"
  shows "((side s - players s) div 2, (side s - players s) div 2) \<in> set (center_pieces s)"
proof -
  have "2 * ((side s - players s) div 2) \<le> side s - players s" by simp
  with assms have "(side s - players s) div 2 < side s - (side s - players s) div 2" by linarith
  then show ?thesis unfolding center_pieces_set by simp
qed

lemma empty_board_not_done:
  assumes shape: "shape_ok s" and one: "1 \<le> players s" and fits: "players s \<le> side s"
    and empty: "\<forall>q. in_bounds s q \<longrightarrow> cell_at s q = None"
  shows "fst (done_prop s) \<noteq> Inr True"
proof
  assume d: "fst (done_prop s) = Inr True"
  define sq where "sq = ((side s - players s) div 2, (side s - players s) div 2)"
  define s1 where "s1 = s\<lparr>turn := 1\<rparr>"
  have sq: "sq \<in> set (center_pieces s)" unfolding sq_def by (rule center_corner[OF one fits])
  with center_on_board[OF fits] have inb: "in_bounds s sq" by blast
  have shape1: "shape_ok s1" and fits1: "players s1 \<le> side s1" and inb1: "in_bounds s1 sq"
    using shape fits inb by (simp_all add: s1_def)
  from empty inb have none: "cell_at s sq = None" by blast
  have open1: "\<exists>c \<in> set (center_pieces s1). cell_at s1 c = None"
    using sq none by (intro bexI[of _ sq]) (simp_all add: s1_def)
  have out1: "\<forall>q. in_bounds s1 q \<and> q \<notin> set (center_pieces s1) \<longrightarrow> cell_at s1 q = None"
    using empty by (simp add: s1_def)
  from legal_move_open_center[OF shape1 fits1 open1 out1 inb1] sq none
  have legal: "legal_move s1 sq = Inr True" by (simp add: s1_def)
  have "sq \<in> set (scan_positions (grid s1))"
    unfolding scan_positions_in_bounds[OF shape1] using inb1 by simp
  with legal have "filter (\<lambda>p. legal_move s1 p = Inr True) (scan_positions (grid s1)) \<noteq> []"
    by (auto simp: filter_empty_conv)
  then have "available_moves s1 \<noteq> Inr []"
    unfolding available_moves_filter[OF shape1 fits1] by simp
  moreover from d one have "available_moves s1 = Inr []"
    unfolding done_prop_True_iff s1_def by simp
  ultimately show False by contradiction
qed

lemma count_list_pos: "0 < count_list xs x \<longleftrightarrow> x \<in> set xs"
  using count_list_0_iff[of xs x] by auto

lemma piece_count_pos: "0 < piece_count s k \<longleftrightarrow> Some k \<in> set (concat (grid s))"
  unfolding piece_count_def by (simp only: count_list_pos of_nat_0_less_iff)

lemma cell_in_concat:
  assumes "shape_ok s" "in_bounds s q"
  shows "cell_at s q \<in> set (concat (grid s))"
proof -
  from assms(2) obtain i j where ij: "q = (int i, int j)" "int i < side s \<and> int j < side s"
    unfolding in_bounds_nat by blast
  from ij(2) have "i < length (grid s) \<and> j < length (grid s ! i)"
    unfolding shape_ok_index[OF assms(1)] .
  then have "grid s ! i ! j \<in> set (grid s ! i)" "grid s ! i \<in> set (grid s)" by simp_all
  then show ?thesis unfolding ij(1) cell_at_def by auto
qed

lemma labels_ok_count:
  assumes "labels_ok s" "0 < piece_count s k"
  shows "1 \<le> k \<and> k \<le> players s"
proof -
  from assms(2) have "Some k \<in> set (concat (grid s))"
    by (simp only: piece_count_pos)
  then obtain row where "row \<in> set (grid s)" "Some k \<in> set row" by auto
  with assms(1) have "valid_item (players s) (Some k)" unfolding labels_ok_def by blast
  then show ?thesis by (simp add: valid_item_def)
qed

lemma winners_set:
  assumes labels: "labels_ok s" and one: "1 \<le> players s"
    and piece: "\<exists>v. 0 < piece_count s v"
  defines "pp \<equiv> player_pieces (grid s)"
  defines "ws \<equiv> map fst (filter (\<lambda>(player, pieces). pieces = maximum_pieces pp) pp)"
  shows "ws \<noteq> [] \<and> set ws = {q \<in> {1..players s}. piece_count s q = Max (piece_count s ` {1..players s})}"
proof -
  let ?P = "{1..players s}"
  let ?M = "Max (piece_count s ` ?P)"
  have fin: "finite (piece_count s ` ?P)" and ne: "piece_count s ` ?P \<noteq> {}"
    using one by simp_all
  have mem: "(k, n) \<in> set pp \<longleftrightarrow> n = piece_count s k \<and> 0 < n" for k n
    unfolding pp_def piece_count_def by (rule player_pieces_mem)
  from piece obtain v where v: "0 < piece_count s v" by blast
  with labels_ok_count[OF labels] have vP: "v \<in> ?P" by simp
  then have "piece_count s v \<le> ?M" using fin by (intro Max_ge) simp_all
  with v have Mpos: "0 < ?M" by linarith
  have maxp: "maximum_pieces pp = ?M"
  proof (rule antisym)
    have "x \<le> ?M" if "x \<in> insert 0 (snd ` set pp)" for x
    proof -
      from that consider "x = 0" | k where "(k, x) \<in> set pp" by force
      then show ?thesis
      proof cases
        case 1
        with Mpos show ?thesis by simp
      next
        case 2
        then have x: "x = piece_count s k" "0 < piece_count s k" unfolding mem by simp_all
        with labels_ok_count[OF labels x(2)] have "k \<in> ?P" by simp
        then have "piece_count s k \<le> ?M" using fin by (intro Max_ge) simp_all
        with x show ?thesis by simp
      qed
    qed
    then show "maximum_pieces pp \<le> ?M"
      unfolding maximum_pieces_Max by (intro Max.boundedI) auto
  next
    from Max_in[OF fin ne] obtain q where q: "q \<in> ?P" "piece_count s q = ?M" by auto
    with Mpos have "(q, ?M) \<in> set pp" unfolding mem by simp
    then have "?M \<in> insert 0 (snd ` set pp)" by force
    then show "?M \<le> maximum_pieces pp"
      unfolding maximum_pieces_Max by (intro Max_ge) simp_all
  qed
  have set_ws: "set ws = {k. (k, ?M) \<in> set pp}"
    unfolding ws_def maxp by force
  have eq: "set ws = {q \<in> ?P. piece_count s q = ?M}"
  proof (intro set_eqI iffI)
    fix k assume "k \<in> set ws"
    then have k: "?M = piece_count s k" "0 < piece_count s k"
      unfolding set_ws mem by simp_all
    with labels_ok_count[OF labels k(2)] show "k \<in> {q \<in> ?P. piece_count s q = ?M}" by simp
  next
    fix k assume "k \<in> {q \<in> ?P. piece_count s q = ?M}"
    with Mpos show "k \<in> set ws" unfolding set_ws mem by simp
  qed
  from Max_in[OF fin ne] obtain q where "q \<in> ?P" "piece_count s q = ?M" by auto
  with eq have "q \<in> set ws" by simp
  then have "ws \<noteq> []" by auto
  with eq show ?thesis by simp
qed

text \<open>
  Claim C5.  In a state with a \<open>side\<close> by \<open>side\<close> grid of labels in \<open>[1, players]\<close>
  and \<open>1 \<le> players \<le> side\<close>: when \<open>done\<close> is false \<open>outcome\<close> returns the empty list;
  when \<open>done\<close> is true it returns a non-empty list that holds exactly the players whose
  number of pieces on the grid is the greatest over the players 1 to \<open>players\<close>.
  Either way the engine is unchanged.
\<close>

theorem outcome_spec:
  assumes shape: "shape_ok s" and labels: "labels_ok s"
    and one: "1 \<le> players s" and fits: "players s \<le> side s"
  shows "(fst (done_prop s) = Inr False \<longrightarrow> outcome s = (Inr [], s))
       \<and> (fst (done_prop s) = Inr True \<longrightarrow>
            (\<exists>ws. outcome s = (Inr ws, s) \<and> ws \<noteq> []
               \<and> set ws = {q \<in> {1..players s}.
                            piece_count s q = Max (piece_count s ` {1..players s})}))"
proof (intro conjI impI)
  assume "fst (done_prop s) = Inr False"
  with done_prop_snd[OF this] have "done_prop s = (Inr False, s)" by (cases "done_prop s") simp
  then show "outcome s = (Inr [], s)" by (simp add: outcome_def)
next
  assume d: "fst (done_prop s) = Inr True"
  with done_prop_snd[OF this] have dp: "done_prop s = (Inr True, s)" by (cases "done_prop s") simp
  define pp where "pp = player_pieces (grid s)"
  define ws where "ws = map fst (filter (\<lambda>(player, pieces). pieces = maximum_pieces pp) pp)"
  have out: "outcome s = (Inr ws, s)"
    by (simp add: outcome_def dp Let_def ws_def pp_def)
  have "\<not> (\<forall>q. in_bounds s q \<longrightarrow> cell_at s q = None)"
    using empty_board_not_done[OF shape one fits] d by blast
  then obtain q v where q: "in_bounds s q" "cell_at s q = Some v" by auto
  from cell_in_concat[OF shape q(1)] q(2) have "0 < piece_count s v"
    by (simp only: piece_count_pos)
  then have "\<exists>v. 0 < piece_count s v" ..
  from winners_set[OF labels one this]
  have "ws \<noteq> [] \<and> set ws = {q \<in> {1..players s}. piece_count s q = Max (piece_count s ` {1..players s})}"
    unfolding ws_def pp_def .
  with out show "\<exists>ws. outcome s = (Inr ws, s) \<and> ws \<noteq> []
               \<and> set ws = {q \<in> {1..players s}.
                            piece_count s q = Max (piece_count s ` {1..players s})}" by blast
qed

text \<open>
  The theorem on a full 8 by 8 board with 32 pieces each (both players win; the dict
  lists player 2 first, whose piece the scan meets first), and at the Othello start
  position, where the game is not done.
\<close>

theorem outcome_spec_witness:
  "outcome tied8 = (Inr [2, 1], tied8)
   \<and> set [2, 1] = {q \<in> {1..players tied8}.
                     piece_count tied8 q = Max (piece_count tied8 ` {1..players tied8})}
   \<and> outcome othello8 = (Inr [], othello8)"
proof -
  have shape: "shape_ok tied8" by (simp add: shape_ok_def tied8_def)
  have labels: "labels_ok tied8" by code_simp
  have one: "1 \<le> players tied8" and fits: "players tied8 \<le> side tied8"
    by (simp_all add: tied8_def)
  have d: "fst (done_prop tied8) = Inr True" by code_simp
  have pp: "player_pieces (grid tied8) = [(2, 32), (1, 32)]" by code_simp
  have mx: "maximum_pieces [(2, 32), (1, 32)] = 32" by code_simp
  have o: "fst (outcome tied8) = Inr [2, 1]"
    using d done_prop_snd[OF d] by (cases "done_prop tied8") (simp add: outcome_def Let_def pp mx)
  from outcome_spec[OF shape labels one fits] d
  obtain ws where ws: "outcome tied8 = (Inr ws, tied8)"
    "set ws = {q \<in> {1..players tied8}.
                piece_count tied8 q = Max (piece_count tied8 ` {1..players tied8})}"
    by blast
  from ws(1) o have eq: "ws = [2, 1]" by simp
  note a = ws(1)[unfolded eq] ws(2)[unfolded eq]
  have shape8: "shape_ok othello8" by (simp add: shape_ok_def othello8_def)
  have labels8: "labels_ok othello8" by code_simp
  have one8: "1 \<le> players othello8" and fits8: "players othello8 \<le> side othello8"
    by (simp_all add: othello8_def)
  have d8: "fst (done_prop othello8) = Inr False" by code_simp
  from outcome_spec[OF shape8 labels8 one8 fits8] d8
  have b: "outcome othello8 = (Inr [], othello8)" by blast
  from a b show ?thesis by blast
qed

subsection \<open>What a move does to the board\<close>

lemma flip_cell_refl: "flip_cell t c c"
  by (simp add: flip_cell_def)

lemma flip_cell_trans: "flip_cell t a b \<Longrightarrow> flip_cell t b c \<Longrightarrow> flip_cell t a c"
  by (auto simp: flip_cell_def)

lemma only_flips_iff:
  "only_flips t g g' \<longleftrightarrow>
     length g' = length g
     \<and> (\<forall>i < length g. length (g' ! i) = length (g ! i)
           \<and> (\<forall>j < length (g ! i). flip_cell t (g ! i ! j) (g' ! i ! j)))"
  unfolding only_flips_def list_all2_conv_all_nth by auto

lemma only_flips_refl: "only_flips t g g"
  unfolding only_flips_iff by (simp add: flip_cell_refl)

lemma only_flips_trans:
  assumes "only_flips t g1 g2" "only_flips t g2 g3"
  shows "only_flips t g1 g3"
proof -
  from assms have len: "length g2 = length g1" "length g3 = length g2"
    unfolding only_flips_iff by simp_all
  have "length (g3 ! i) = length (g1 ! i)
      \<and> (\<forall>j < length (g1 ! i). flip_cell t (g1 ! i ! j) (g3 ! i ! j))" if i: "i < length g1" for i
  proof -
    from assms(1) i have a: "length (g2 ! i) = length (g1 ! i)"
      "\<forall>j < length (g1 ! i). flip_cell t (g1 ! i ! j) (g2 ! i ! j)"
      unfolding only_flips_iff by simp_all
    from assms(2) i len have b: "length (g3 ! i) = length (g2 ! i)"
      "\<forall>j < length (g2 ! i). flip_cell t (g2 ! i ! j) (g3 ! i ! j)"
      unfolding only_flips_iff by simp_all
    from a b show ?thesis by (auto intro: flip_cell_trans)
  qed
  with len show ?thesis unfolding only_flips_iff by simp
qed

lemma flip_cell_occupied: "flip_cell t c c' \<Longrightarrow> (c' \<noteq> None) = (c \<noteq> None)"
  by (auto simp: flip_cell_def)

lemma flip_row_occupied:
  "list_all2 (flip_cell t) row row' \<Longrightarrow> occupied_row row' = occupied_row row"
  unfolding occupied_row_def
  by (induction rule: list_all2_induct) (auto simp del: not_None_eq dest: flip_cell_occupied)

lemma occupied_rows: "occupied g = sum_list (map occupied_row g)"
  unfolding occupied_def occupied_row_def
  by (induction g) (simp_all del: not_None_eq)

lemma only_flips_occupied: "only_flips t g g' \<Longrightarrow> occupied g' = occupied g"
  unfolding only_flips_def occupied_rows
  by (induction rule: list_all2_induct) (simp_all add: flip_row_occupied)

lemma paint_cell_refl: "paint_cell t c c"
  by (simp add: paint_cell_def)

lemma paint_cell_trans: "paint_cell t a b \<Longrightarrow> paint_cell t b c \<Longrightarrow> paint_cell t a c"
  by (auto simp: paint_cell_def)

lemma flip_cell_paint: "flip_cell t c c' \<Longrightarrow> paint_cell t c c'"
  by (auto simp: flip_cell_def paint_cell_def)

lemma paints_iff:
  "paints t g g' \<longleftrightarrow>
     length g' = length g
     \<and> (\<forall>i < length g. length (g' ! i) = length (g ! i)
           \<and> (\<forall>j < length (g ! i). paint_cell t (g ! i ! j) (g' ! i ! j)))"
  unfolding paints_def list_all2_conv_all_nth by auto

lemma paints_refl: "paints t g g"
  unfolding paints_iff by (simp add: paint_cell_refl)

lemma paints_trans:
  assumes "paints t g1 g2" "paints t g2 g3"
  shows "paints t g1 g3"
proof -
  from assms have len: "length g2 = length g1" "length g3 = length g2"
    unfolding paints_iff by simp_all
  have "length (g3 ! i) = length (g1 ! i)
      \<and> (\<forall>j < length (g1 ! i). paint_cell t (g1 ! i ! j) (g3 ! i ! j))" if i: "i < length g1" for i
  proof -
    from assms(1) i have a: "length (g2 ! i) = length (g1 ! i)"
      "\<forall>j < length (g1 ! i). paint_cell t (g1 ! i ! j) (g2 ! i ! j)"
      unfolding paints_iff by simp_all
    from assms(2) i len have b: "length (g3 ! i) = length (g2 ! i)"
      "\<forall>j < length (g2 ! i). paint_cell t (g2 ! i ! j) (g3 ! i ! j)"
      unfolding paints_iff by simp_all
    from a b show ?thesis by (auto intro: paint_cell_trans)
  qed
  with len show ?thesis unfolding paints_iff by simp
qed

lemma only_flips_paints: "only_flips t g g' \<Longrightarrow> paints t g g'"
  unfolding only_flips_iff paints_iff by (simp add: flip_cell_paint)

lemma paints_shape:
  assumes "shape_ok s" "paints t (grid s) g'"
  shows "shape_ok (s\<lparr>grid := g'\<rparr>)"
proof -
  from assms(2) have len: "length g' = length (grid s)"
    unfolding paints_iff by simp
  have "int (length row') = side s" if "row' \<in> set g'" for row'
  proof -
    from that obtain i where i: "i < length g'" "row' = g' ! i" by (auto simp: in_set_conv_nth)
    with assms(2) len have "length (g' ! i) = length (grid s ! i)"
      unfolding paints_iff by simp
    moreover have "grid s ! i \<in> set (grid s)" using i len by simp
    ultimately show ?thesis using assms(1) i by (simp add: shape_ok_def)
  qed
  with len assms(1) show ?thesis by (simp add: shape_ok_def)
qed

lemma only_flips_shape:
  assumes "shape_ok s" "only_flips t (grid s) g'"
  shows "shape_ok (s\<lparr>grid := g'\<rparr>)"
  using assms(1) only_flips_paints[OF assms(2)] by (rule paints_shape)

lemma in_bounds_index:
  assumes "shape_ok s" "in_bounds s q"
  obtains i j where "q = (int i, int j)" "i < length (grid s)" "j < length (grid s ! i)"
proof -
  from assms(2) obtain i j where ij: "q = (int i, int j)" "int i < side s \<and> int j < side s"
    unfolding in_bounds_nat by blast
  from ij(2) have "i < length (grid s) \<and> j < length (grid s ! i)"
    unfolding shape_ok_index[OF assms(1)] .
  with ij(1) that show ?thesis by blast
qed

lemma only_flips_cell:
  assumes shape: "shape_ok s" and inb: "in_bounds s q" and flips: "only_flips t (grid s) g'"
  shows "flip_cell t (cell_at s q) (cell_at (s\<lparr>grid := g'\<rparr>) q)"
proof -
  from in_bounds_index[OF shape inb] obtain i j
    where ij: "q = (int i, int j)" "i < length (grid s)" "j < length (grid s ! i)" by blast
  from flips ij(2,3) have "flip_cell t (grid s ! i ! j) (g' ! i ! j)"
    unfolding only_flips_iff by simp
  then show ?thesis by (simp add: ij(1) cell_at_def)
qed

lemma paints_cell:
  assumes shape: "shape_ok s" and inb: "in_bounds s q" and writes: "paints t (grid s) g'"
  shows "paint_cell t (cell_at s q) (cell_at (s\<lparr>grid := g'\<rparr>) q)"
proof -
  from in_bounds_index[OF shape inb] obtain i j
    where ij: "q = (int i, int j)" "i < length (grid s)" "j < length (grid s ! i)" by blast
  from writes ij(2,3) have "paint_cell t (grid s ! i ! j) (g' ! i ! j)"
    unfolding paints_iff by simp
  then show ?thesis by (simp add: ij(1) cell_at_def)
qed

text \<open>
  A write on a well-formed board: it succeeds, and writes the label to the cell and to
  the cell of the same column in each row that is the same object, and to no other.
\<close>

lemma grid_set_paints:
  assumes shape: "shape_ok s" and inb: "in_bounds s x"
  shows "\<exists>g1. grid_set (grid s) ids (fst x) (snd x) (Some t) = Inr g1
           \<and> paints t (grid s) g1 \<and> cell_at (s\<lparr>grid := g1\<rparr>) x = Some t"
proof -
  from in_bounds_index[OF shape inb] obtain k l
    where kl: "x = (int k, int l)" "k < length (grid s)" "l < length (grid s ! k)" by blast
  define g1 where "g1 = map (\<lambda>i. if same_object ids i k then (grid s ! i)[l := Some t]
                                  else grid s ! i) [0..<length (grid s)]"
  have set: "grid_set (grid s) ids (fst x) (snd x) (Some t) = Inr g1"
    using kl by (simp add: grid_set_def py_slot_def g1_def)
  have "paints t (grid s) g1"
    unfolding paints_iff
  proof (intro conjI allI impI)
    show "length g1 = length (grid s)" by (simp add: g1_def)
  next
    fix i assume "i < length (grid s)"
    then show "length (g1 ! i) = length (grid s ! i)" by (simp add: g1_def)
  next
    fix i j assume "i < length (grid s)" "j < length (grid s ! i)"
    then show "paint_cell t (grid s ! i ! j) (g1 ! i ! j)"
      by (cases "j = l") (simp_all add: g1_def paint_cell_def)
  qed
  moreover have "cell_at (s\<lparr>grid := g1\<rparr>) x = Some t"
    using kl by (simp add: cell_at_def g1_def same_object_refl)
  ultimately show ?thesis using set by blast
qed

text \<open>When the rows are different objects the write changes the one cell.\<close>

lemma same_object_distinct: "distinct ids \<Longrightarrow> same_object ids i k \<longleftrightarrow> i = k"
  by (auto simp: same_object_def nth_eq_iff_index_eq)

lemma grid_set_cell:
  assumes shape: "shape_ok s" and inb: "in_bounds s x" and rows: "distinct ids"
  shows "grid_set (grid s) ids (fst x) (snd x) v = Inr (put_cell (grid s) x v)"
proof -
  from in_bounds_index[OF shape inb] obtain k l
    where kl: "x = (int k, int l)" "k < length (grid s)" "l < length (grid s ! k)" by blast
  have "map (\<lambda>i. if i = k then (grid s ! i)[l := v] else grid s ! i) [0..<length (grid s)]
      = (grid s)[k := (grid s ! k)[l := v]]"
    by (rule nth_equalityI) (simp_all add: nth_list_update)
  then show ?thesis
    using kl by (simp add: grid_set_def py_slot_def put_cell_def same_object_distinct[OF rows])
qed

lemma put_cell_nth:
  assumes "i < length g" "j < length (g ! i)"
  shows "put_cell g (int k, int l) v ! i ! j = (if i = k \<and> j = l then v else g ! i ! j)"
proof (cases "i = k")
  case True
  with assms show ?thesis by (simp add: put_cell_def nth_list_update)
next
  case False
  then show ?thesis by (simp add: put_cell_def)
qed

lemma put_cell_length: "length (put_cell g x v) = length g"
  by (simp add: put_cell_def)

lemma put_cell_row_length: "i < length g \<Longrightarrow> length (put_cell g x v ! i) = length (g ! i)"
  by (cases "i = nat (fst x)") (simp_all add: put_cell_def)

lemma put_cell_flips:
  assumes shape: "shape_ok s" and inb: "in_bounds s x" and flip: "flip_cell t (cell_at s x) v"
  shows "only_flips t (grid s) (put_cell (grid s) x v)"
proof -
  from in_bounds_index[OF shape inb] obtain k l
    where kl: "x = (int k, int l)" "k < length (grid s)" "l < length (grid s ! k)" by blast
  from flip have f: "flip_cell t (grid s ! k ! l) v" by (simp add: cell_at_def kl(1))
  show ?thesis
    unfolding only_flips_iff kl(1)
    using f by (simp add: put_cell_length put_cell_row_length put_cell_nth flip_cell_refl)
qed

lemma cell_at_put:
  assumes shape: "shape_ok s" and inb: "in_bounds s q" and inx: "in_bounds s x"
  shows "cell_at (s\<lparr>grid := put_cell (grid s) x v\<rparr>) q = (if q = x then v else cell_at s q)"
proof -
  from in_bounds_index[OF shape inb] obtain i j
    where ij: "q = (int i, int j)" "i < length (grid s)" "j < length (grid s ! i)" by blast
  from in_bounds_index[OF shape inx] obtain k l
    where kl: "x = (int k, int l)" "k < length (grid s)" "l < length (grid s ! k)" by blast
  show ?thesis
    unfolding ij(1) kl(1) cell_at_def using put_cell_nth[OF ij(2,3), of k l v] by simp
qed

lemma put_cell_shape:
  assumes "shape_ok s"
  shows "shape_ok (s\<lparr>grid := put_cell (grid s) x v\<rparr>)"
proof -
  have "int (length row) = side s" if "row \<in> set (put_cell (grid s) x v)" for row
  proof -
    from that obtain i where i: "i < length (grid s)" "row = put_cell (grid s) x v ! i"
      by (auto simp: in_set_conv_nth put_cell_length)
    then have "length row = length (grid s ! i)" by (simp add: put_cell_row_length)
    moreover have "grid s ! i \<in> set (grid s)" using i by simp
    ultimately show ?thesis using assms by (simp add: shape_ok_def)
  qed
  with assms show ?thesis by (simp add: shape_ok_def put_cell_length)
qed

lemma occupied_row_update:
  assumes "j < length row" "row ! j = None" "v \<noteq> None"
  shows "occupied_row (row[j := v]) = Suc (occupied_row row)"
proof -
  have a: "row[j := v] = take j row @ v # drop (Suc j) row"
    using assms(1) by (rule upd_conv_take_nth_drop)
  have b: "row = take j row @ None # drop (Suc j) row"
    using id_take_nth_drop[OF assms(1)] assms(2) by simp
  have "occupied_row (take j row @ None # drop (Suc j) row)
      = occupied_row (take j row) + occupied_row (drop (Suc j) row)"
    unfolding occupied_row_def by simp
  moreover have "occupied_row (take j row @ v # drop (Suc j) row)
      = Suc (occupied_row (take j row) + occupied_row (drop (Suc j) row))"
    unfolding occupied_row_def using assms(3) by simp
  ultimately show ?thesis using a b by simp
qed

lemma occupied_put:
  assumes "i < length g" "j < length (g ! i)" "g ! i ! j = None" "v \<noteq> None"
  shows "occupied (put_cell g (int i, int j) v) = Suc (occupied g)"
proof -
  have a: "put_cell g (int i, int j) v = take i g @ (g ! i)[j := v] # drop (Suc i) g"
    unfolding put_cell_def using assms(1) by (simp add: upd_conv_take_nth_drop)
  have b: "g = take i g @ g ! i # drop (Suc i) g"
    using assms(1) by (rule id_take_nth_drop)
  have "occupied (take i g @ (g ! i)[j := v] # drop (Suc i) g)
      = sum_list (map occupied_row (take i g)) + occupied_row ((g ! i)[j := v])
        + sum_list (map occupied_row (drop (Suc i) g))"
    unfolding occupied_rows by simp
  also have "\<dots> = Suc (sum_list (map occupied_row (take i g)) + occupied_row (g ! i)
        + sum_list (map occupied_row (drop (Suc i) g)))"
    by (simp add: occupied_row_update[OF assms(2,3,4)])
  also have "sum_list (map occupied_row (take i g)) + occupied_row (g ! i)
        + sum_list (map occupied_row (drop (Suc i) g))
      = occupied (take i g @ g ! i # drop (Suc i) g)"
    unfolding occupied_rows by simp
  finally show ?thesis using a b by simp
qed

lemma in_bounds_grid [simp]: "in_bounds (s\<lparr>grid := g\<rparr>) q = in_bounds s q"
  by (simp add: in_bounds_def)

lemma flip_cell_mine: "flip_cell t (Some t) c \<longleftrightarrow> c = Some t"
  by (auto simp: flip_cell_def)

lemma paint_cell_mine: "paint_cell t (Some t) c \<longleftrightarrow> c = Some t"
  by (auto simp: paint_cell_def)

lemma paint_cell_other: "paint_cell t c c' \<Longrightarrow> c' \<noteq> Some t \<Longrightarrow> c' = c"
  by (auto simp: paint_cell_def)

text \<open>
  Writes of the mover's label cannot take a capture away: a ray that reached a piece of
  the mover reaches one still, and no later.
\<close>

lemma lands_mono:
  assumes shape: "shape_ok s" and writes: "paints t (grid s) g'" and lands: "lands s t x d j"
  shows "\<exists>j' \<le> j. lands (s\<lparr>grid := g'\<rparr>) t x d j'"
proof -
  let ?s' = "s\<lparr>grid := g'\<rparr>"
  let ?P = "\<lambda>i. cell_at ?s' (ray_cell x d i) = Some t"
  from lands have inj: "in_bounds s (ray_cell x d j)" and atj: "cell_at s (ray_cell x d j) = Some t"
    and before: "\<And>i. i < j \<Longrightarrow> in_bounds s (ray_cell x d i) \<and> opponent_at s t (ray_cell x d i)"
    unfolding lands_def by blast+
  from paints_cell[OF shape inj writes] atj have Pj: "?P j" by (simp add: paint_cell_mine)
  define j' where "j' = (LEAST i. ?P i)"
  have le: "j' \<le> j" unfolding j'_def using Pj by (rule Least_le)
  have P': "?P j'" unfolding j'_def using Pj by (rule LeastI)
  have notP: "\<not> ?P i" if "i < j'" for i using that unfolding j'_def by (rule not_less_Least)
  have inb': "in_bounds ?s' (ray_cell x d j')"
  proof (cases "j' = j")
    case True
    with inj show ?thesis by simp
  next
    case False
    with le have "j' < j" by simp
    from before[OF this] show ?thesis by simp
  qed
  have opp: "in_bounds ?s' (ray_cell x d i) \<and> opponent_at ?s' t (ray_cell x d i)" if "i < j'" for i
  proof -
    from that le have "i < j" by simp
    from before[OF this] have b: "in_bounds s (ray_cell x d i)" "opponent_at s t (ray_cell x d i)"
      by simp_all
    from b(2) obtain v where v: "cell_at s (ray_cell x d i) = Some v" "v \<noteq> t"
      by (auto simp: opponent_at_def split: option.splits)
    from paint_cell_other[OF paints_cell[OF shape b(1) writes] notP[OF that]] v(1)
    have "cell_at ?s' (ray_cell x d i) = Some v" by simp
    with v(2) b(1) show ?thesis by (simp add: opponent_at_def)
  qed
  from opp inb' P' have "lands ?s' t x d j'" unfolding lands_def by blast
  with le show ?thesis by blast
qed

lemma flip_walk_stop:
  "grid_get g (fst x) (snd x) = Inr (Some t) \<Longrightarrow> flip_walk g ids t d x = (Inr (), g)"
  by (subst flip_walk.simps) simp

lemma flip_walk_step:
  "grid_get g (fst x) (snd x) = Inr v \<Longrightarrow> v \<noteq> Some t \<Longrightarrow>
     grid_set g ids (fst x) (snd x) (Some t) = Inr g' \<Longrightarrow>
     flip_walk g ids t d x = flip_walk g' ids t d (ray_cell x d (Suc 0))"
  by (subst flip_walk.simps) (simp add: ray_cell_1)

text \<open>
  The flip walk along a ray that lands: it ends without an exception, it writes nothing
  but the mover's label, and when the rows are different objects it changes only pieces
  of other players.
\<close>

lemma flip_walk_lands:
  "shape_ok s \<Longrightarrow> lands s t x d j \<Longrightarrow>
     \<exists>g'. flip_walk (grid s) ids t d x = (Inr (), g') \<and> paints t (grid s) g'
        \<and> (distinct ids \<longrightarrow> only_flips t (grid s) g')"
proof (induction j arbitrary: s x rule: less_induct)
  case (less j)
  note shape = less.prems(1) and lands = less.prems(2)
  from lands_needs_bounds[OF lands] have inb: "in_bounds s x" .
  note get = grid_get_cell_at[OF shape inb]
  show ?case
  proof (cases "cell_at s x = Some t")
    case True
    with get have "flip_walk (grid s) ids t d x = (Inr (), grid s)" by (intro flip_walk_stop) simp
    with only_flips_refl paints_refl show ?thesis by blast
  next
    case False
    have "j \<noteq> 0"
    proof
      assume "j = 0"
      with lands have "cell_at s x = Some t" by (simp add: lands_def ray_cell_0)
      with False show False by contradiction
    qed
    then obtain j0 where j: "j = Suc j0" by (cases j) auto
    from lands j have opp: "opponent_at s t x"
      unfolding lands_def using ray_cell_0[of x d] by (metis zero_less_Suc)
    then have flip: "flip_cell t (cell_at s x) (Some t)"
      by (auto simp: opponent_at_def flip_cell_def split: option.splits)
    from grid_set_paints[OF shape inb, of ids t]
    obtain g1 where set: "grid_set (grid s) ids (fst x) (snd x) (Some t) = Inr g1"
      and w1: "paints t (grid s) g1" by blast
    define s1 where "s1 = s\<lparr>grid := g1\<rparr>"
    have f1: "only_flips t (grid s) g1" if "distinct ids"
    proof -
      from grid_set_cell[OF shape inb that, of "Some t"] set
      have "g1 = put_cell (grid s) x (Some t)" by simp
      with put_cell_flips[OF shape inb flip] show ?thesis by simp
    qed
    have shape1: "shape_ok s1" unfolding s1_def by (rule paints_shape[OF shape w1])
    from lands j lands_Suc[OF opp inb] have "lands s t (ray_cell x d (Suc 0)) d j0" by simp
    from lands_mono[OF shape w1 this]
    obtain j' where j': "j' \<le> j0" "lands s1 t (ray_cell x d (Suc 0)) d j'"
      unfolding s1_def by blast
    from j'(1) j have "j' < j" by simp
    from less.IH[OF this shape1 j'(2)]
    obtain g' where g': "flip_walk g1 ids t d (ray_cell x d (Suc 0)) = (Inr (), g')"
      "paints t g1 g'" "distinct ids \<longrightarrow> only_flips t g1 g'" by (auto simp: s1_def)
    from flip_walk_step[OF get False set] g'(1)
    have run: "flip_walk (grid s) ids t d x = (Inr (), g')" by simp
    have "only_flips t (grid s) g'" if "distinct ids"
      using only_flips_trans[OF f1[OF that]] g'(3) that by blast
    with run paints_trans[OF w1 g'(2)] show ?thesis by blast
  qed
qed

lemma ray_captures_lands_ex:
  "ray_captures 1 s t p d \<Longrightarrow> \<exists>j. lands s t (ray_cell p d (Suc 0)) d j"
  unfolding ray_captures_lands by blast

lemma flip_all_lands:
  "shape_ok s \<Longrightarrow> \<forall>d \<in> set ds. \<exists>j. lands s t (ray_cell p d (Suc 0)) d j \<Longrightarrow>
     \<exists>g'. flip_all (grid s) ids t p ds = (Inr (), g') \<and> paints t (grid s) g'
        \<and> (distinct ids \<longrightarrow> only_flips t (grid s) g')"
proof (induction ds arbitrary: s)
  case Nil
  then show ?case by (simp add: only_flips_refl paints_refl)
next
  case (Cons d ds)
  note shape = Cons.prems(1)
  from Cons.prems(2) obtain j where "lands s t (ray_cell p d (Suc 0)) d j" by auto
  from flip_walk_lands[OF shape this, of ids]
  obtain g1 where g1: "flip_walk (grid s) ids t d (ray_cell p d (Suc 0)) = (Inr (), g1)"
    "paints t (grid s) g1" "distinct ids \<longrightarrow> only_flips t (grid s) g1" by blast
  define s1 where "s1 = s\<lparr>grid := g1\<rparr>"
  have shape1: "shape_ok s1" unfolding s1_def by (rule paints_shape[OF shape g1(2)])
  have rest: "\<forall>d' \<in> set ds. \<exists>j. lands s1 t (ray_cell p d' (Suc 0)) d' j"
  proof
    fix d' assume "d' \<in> set ds"
    with Cons.prems(2) obtain j where "lands s t (ray_cell p d' (Suc 0)) d' j" by auto
    from lands_mono[OF shape g1(2) this] show "\<exists>j. lands s1 t (ray_cell p d' (Suc 0)) d' j"
      unfolding s1_def by blast
  qed
  from Cons.IH[OF shape1 rest]
  obtain g' where g': "flip_all g1 ids t p ds = (Inr (), g')" "paints t g1 g'"
    "distinct ids \<longrightarrow> only_flips t g1 g'"
    by (auto simp: s1_def)
  from g1(1) g'(1) have run: "flip_all (grid s) ids t p (d # ds) = (Inr (), g')"
    by (simp add: ray_cell_1)
  have "only_flips t (grid s) g'" if "distinct ids"
    using g1(3) g'(3) that by (blast intro: only_flips_trans)
  with run paints_trans[OF g1(2) g'(2)] show ?case by blast
qed

lemma retrace_captures:
  assumes "shape_ok s"
  shows "\<exists>rd. retrace s p ds = Inr rd \<and> (\<forall>d \<in> set rd. ray_captures 1 s (turn s) p d)"
proof (induction ds)
  case Nil
  then show ?case by simp
next
  case (Cons d ds)
  from check_direction_captures[OF assms, of "turn s" p d]
  obtain res where res: "check_direction s (turn s) p d = Inr res"
    "res \<noteq> None \<longleftrightarrow> ray_captures 1 s (turn s) p d" by blast
  from Cons.IH obtain rd where rd: "retrace s p ds = Inr rd"
    "\<forall>d \<in> set rd. ray_captures 1 s (turn s) p d" by blast
  show ?case using res rd by (cases res) auto
qed

text \<open>
  The placement and the flips on a well-formed board: they end without an exception and
  write nothing but the mover's label; when the rows are different objects, the board is
  the old one with the piece placed and pieces of other players flipped.
\<close>

lemma place_and_flip_board:
  assumes shape: "shape_ok s" and inb: "in_bounds s p"
  shows "\<exists>g'. place_and_flip s p = (Inr (), s\<lparr>grid := g'\<rparr>)
           \<and> paints (turn s) (grid s) g'
           \<and> (distinct (row_ids s) \<longrightarrow>
                 only_flips (turn s) (put_cell (grid s) p (Some (turn s))) g')"
proof -
  from grid_set_paints[OF shape inb, of "row_ids s" "turn s"]
  obtain g1 where set: "grid_set (grid s) (row_ids s) (fst p) (snd p) (Some (turn s)) = Inr g1"
    and w1: "paints (turn s) (grid s) g1" by blast
  define s1 where "s1 = s\<lparr>grid := g1\<rparr>"
  have place: "place_piece s p = (Inr (), s1)"
    unfolding place_piece_def s1_def by (simp add: set)
  have shape1: "shape_ok s1" unfolding s1_def by (rule paints_shape[OF shape w1])
  have put: "g1 = put_cell (grid s) p (Some (turn s))" if "distinct (row_ids s)"
    using grid_set_cell[OF shape inb that, of "Some (turn s)"] set by simp
  show ?thesis
  proof (cases "\<not> othello s \<and> p \<in> set (center_pieces s)")
    case True
    then have "place_and_flip s p = (Inr (), s\<lparr>grid := g1\<rparr>)"
      using place by (simp add: place_and_flip_def s1_def)
    with w1 put only_flips_refl[of "turn s" g1] show ?thesis by auto
  next
    case False
    from retrace_captures[OF shape1, of p directions]
    obtain rd where rd: "retrace s1 p directions = Inr rd"
      "\<forall>d \<in> set rd. ray_captures 1 s1 (turn s1) p d" by blast
    from rd(2) have "\<forall>d \<in> set rd. \<exists>j. lands s1 (turn s1) (ray_cell p d (Suc 0)) d j"
      by (blast dest: ray_captures_lands_ex)
    from flip_all_lands[OF shape1 this, of "row_ids s1"]
    obtain g' where g': "flip_all (grid s1) (row_ids s1) (turn s1) p rd = (Inr (), g')"
      "paints (turn s1) (grid s1) g'"
      "distinct (row_ids s1) \<longrightarrow> only_flips (turn s1) (grid s1) g'" by blast
    have run: "place_and_flip s p = (Inr (), s\<lparr>grid := g'\<rparr>)"
      using False place rd(1) g'(1) by (auto simp: place_and_flip_def s1_def)
    from g'(2) have "paints (turn s) g1 g'" by (simp add: s1_def)
    from paints_trans[OF w1 this] have w: "paints (turn s) (grid s) g'" .
    have "only_flips (turn s) (put_cell (grid s) p (Some (turn s))) g'" if "distinct (row_ids s)"
      using g'(3) put[OF that] that by (simp add: s1_def)
    with run w show ?thesis by blast
  qed
qed

lemma same_board_refl: "same_board s s"
  by (simp add: same_board_def)

lemma same_board_turn: "same_board s (s\<lparr>turn := q\<rparr>)"
  by (simp add: same_board_def)

lemma same_board_trans: "same_board a b \<Longrightarrow> same_board b c \<Longrightarrow> same_board a c"
  unfolding same_board_def by (metis reversi.update_convs(5) reversi.surjective reversi.select_convs(5))

lemma same_board_grid: "same_board s s' \<Longrightarrow> grid s' = grid s"
  unfolding same_board_def by (metis reversi.select_convs(4) reversi.surjective reversi.update_convs(5))

lemma done_prop_same: "same_board s (snd (done_prop s))"
proof -
  obtain r s1 where l: "done_loop s [1..players s] True = (r, s1)"
    by (cases "done_loop s [1..players s] True")
  from done_loop_frame[OF l] have s1: "same_board s s1" by (simp add: same_board_def)
  show ?thesis
  proof (cases r)
    case (Inl e)
    with l s1 show ?thesis by (simp add: done_prop_def Let_def)
  next
    case (Inr b)
    with l have "snd (done_prop s) = s1\<lparr>turn := turn s\<rparr>" by (simp add: done_prop_def Let_def)
    with same_board_trans[OF s1 same_board_turn] show ?thesis by simp
  qed
qed

lemma advance_turn_same: "same_board s (snd (advance_turn s))"
  by (simp add: advance_turn_def Let_def same_board_def)

lemma skip_loop_same: "same_board s (snd (skip_loop s))"
proof (induction s rule: skip_loop.induct)
  case (1 s)
  show ?case
  proof (cases "available_moves s")
    case (Inl e)
    then show ?thesis by (subst skip_loop.simps) (simp add: same_board_refl)
  next
    case (Inr ms)
    show ?thesis
    proof (cases "ms = []")
      case False
      with Inr show ?thesis by (subst skip_loop.simps) (simp add: same_board_refl)
    next
      case True
      obtain r s' where d: "done_prop s = (r, s')" by (cases "done_prop s")
      from done_prop_same[of s] d have sb': "same_board s s'" by simp
      show ?thesis
      proof (cases r)
        case (Inl e)
        with Inr True d sb' show ?thesis by (subst skip_loop.simps) simp
      next
        case r: (Inr is_done)
        show ?thesis
        proof (cases is_done)
          case True
          with Inr \<open>ms = []\<close> d r sb' show ?thesis by (subst skip_loop.simps) simp
        next
          case False
          obtain r' s'' where a: "advance_turn s' = (r', s'')" by (cases "advance_turn s'")
          from advance_turn_same[of s'] a have sb'': "same_board s' s''" by simp
          show ?thesis
          proof (cases r')
            case (Inl e)
            with Inr \<open>ms = []\<close> d r False a same_board_trans[OF sb' sb'']
            show ?thesis by (subst skip_loop.simps) simp
          next
            case r': (Inr u)
            from "1.IH"[OF Inr \<open>ms = []\<close> d[symmetric] r _ a[symmetric] r'] False
            have "same_board s'' (snd (skip_loop s''))" by simp
            with same_board_trans[OF sb' sb''] have "same_board s (snd (skip_loop s''))"
              by (blast intro: same_board_trans)
            with Inr \<open>ms = []\<close> d r False a r'
            show ?thesis by (subst skip_loop.simps) simp
          qed
        qed
      qed
    qed
  qed
qed

text \<open>The grid after \<open>apply_move\<close> is the grid after the placement and the flips.\<close>

lemma apply_move_grid:
  assumes shape: "shape_ok s" and inb: "in_bounds s p" and rows: "distinct (row_ids s)"
  shows "only_flips (turn s) (put_cell (grid s) p (Some (turn s))) (grid (snd (apply_move s p)))"
proof -
  from place_and_flip_board[OF shape inb] rows
  obtain g' where g': "place_and_flip s p = (Inr (), s\<lparr>grid := g'\<rparr>)"
    "only_flips (turn s) (put_cell (grid s) p (Some (turn s))) g'" by blast
  define s1 where "s1 = s\<lparr>grid := g'\<rparr>"
  obtain r s2 where a: "advance_turn s1 = (r, s2)" by (cases "advance_turn s1")
  from advance_turn_same[of s1] a have "grid s2 = g'"
    by (auto dest: same_board_grid simp: s1_def)
  moreover from same_board_grid[OF skip_loop_same[of s2]] have "grid (snd (skip_loop s2)) = grid s2" .
  moreover have "snd (apply_move s p) = (case r of Inl e \<Rightarrow> s2 | Inr u \<Rightarrow> snd (skip_loop s2))"
    using inb g'(1) a by (simp add: apply_move_def s1_def split: sum.splits)
  ultimately have "grid (snd (apply_move s p)) = g'" by (cases r) simp_all
  with g'(2) show ?thesis by simp
qed

lemma place_piece_row_ids: "row_ids (snd (place_piece s p)) = row_ids s"
  by (simp add: place_piece_def split: sum.splits)

lemma place_and_flip_row_ids: "row_ids (snd (place_and_flip s p)) = row_ids s"
proof -
  obtain r s1 where pl: "place_piece s p = (r, s1)" by (cases "place_piece s p")
  with place_piece_row_ids[of s p] have "row_ids s1 = row_ids s" by simp
  with pl show ?thesis
    by (auto simp: place_and_flip_def split: sum.splits prod.splits)
qed

lemma same_board_row_ids: "same_board s s' \<Longrightarrow> row_ids s' = row_ids s"
  unfolding same_board_def by (metis reversi.select_convs(6) reversi.surjective reversi.update_convs(5))

text \<open>No move changes which rows the grid has.\<close>

lemma apply_move_row_ids: "row_ids (snd (apply_move s p)) = row_ids s"
proof (cases "in_bounds s p")
  case False
  then show ?thesis by (simp add: apply_move_def)
next
  case True
  obtain r s1 where pf: "place_and_flip s p = (r, s1)" by (cases "place_and_flip s p")
  with place_and_flip_row_ids[of s p] have r1: "row_ids s1 = row_ids s" by simp
  obtain r' s2 where ad: "advance_turn s1 = (r', s2)" by (cases "advance_turn s1")
  with same_board_row_ids[OF advance_turn_same[of s1]] r1 have r2: "row_ids s2 = row_ids s" by simp
  from same_board_row_ids[OF skip_loop_same[of s2]] r2
  have r3: "row_ids (snd (skip_loop s2)) = row_ids s" by simp
  from True pf ad r1 r2 r3 show ?thesis
    by (cases r; cases r') (simp_all add: apply_move_def)
qed

text \<open>
  Slots of the grid that hold one row read the same (\<open>rows_agree\<close>), and every
  write of the engine keeps it so: the write goes to each of these slots.
\<close>

lemma same_object_sym: "same_object ids i k \<Longrightarrow> same_object ids k i"
  by (auto simp: same_object_def)

lemma same_object_trans: "same_object ids i j \<Longrightarrow> same_object ids j k \<Longrightarrow> same_object ids i k"
  by (auto simp: same_object_def)

lemma grid_set_agree:
  assumes "rows_agree g ids" "grid_set g ids r c v = Inr g'"
  shows "rows_agree g' ids"
proof -
  from assms(2) obtain k l where
    g': "g' = map (\<lambda>i. if same_object ids i k then (g ! i)[l := v] else g ! i) [0..<length g]"
    by (auto simp: grid_set_def split: option.splits)
  have "g' ! i = g' ! j" if ij: "i < length g" "j < length g" "same_object ids i j" for i j
  proof -
    from assms(1) ij have eq: "g ! i = g ! j" by (simp add: rows_agree_def)
    have "same_object ids i k \<longleftrightarrow> same_object ids j k"
      using ij(3) by (blast intro: same_object_sym same_object_trans)
    with eq ij show ?thesis by (simp add: g')
  qed
  then show ?thesis by (simp add: rows_agree_def g')
qed

lemma flip_walk_agree:
  "rows_agree g ids \<Longrightarrow> rows_agree (snd (flip_walk g ids t d p)) ids"
proof (induction g ids t d p rule: flip_walk.induct)
  case (1 g ids t d p)
  show ?case
  proof (cases "grid_get g (fst p) (snd p)")
    case (Inl e)
    with "1.prems" show ?thesis by (subst flip_walk.simps) simp
  next
    case (Inr v)
    show ?thesis
    proof (cases "v \<noteq> Some t")
      case False
      with Inr "1.prems" show ?thesis by (subst flip_walk.simps) simp
    next
      case True
      show ?thesis
      proof (cases "grid_set g ids (fst p) (snd p) (Some t)")
        case (Inl e)
        with Inr True "1.prems" show ?thesis by (subst flip_walk.simps) simp
      next
        case set: (Inr g')
        from grid_set_agree[OF "1.prems" set] have "rows_agree g' ids" .
        from "1.IH"[OF Inr True set this] Inr True set
        show ?thesis by (subst flip_walk.simps) simp
      qed
    qed
  qed
qed

lemma flip_all_agree:
  "rows_agree g ids \<Longrightarrow> rows_agree (snd (flip_all g ids t p ds)) ids"
proof (induction ds arbitrary: g)
  case Nil
  then show ?case by simp
next
  case (Cons d ds)
  obtain r g1 where w: "flip_walk g ids t d (fst p + fst (shift d), snd p + snd (shift d)) = (r, g1)"
    by (cases "flip_walk g ids t d (fst p + fst (shift d), snd p + snd (shift d))")
  from flip_walk_agree[OF Cons.prems, of t d "(fst p + fst (shift d), snd p + snd (shift d))"] w
  have a1: "rows_agree g1 ids" by simp
  show ?case
  proof (cases r)
    case (Inl e)
    with w a1 show ?thesis by simp
  next
    case (Inr u)
    with w Cons.IH[OF a1] show ?thesis by simp
  qed
qed

lemma place_piece_agree:
  assumes "rows_agree (grid s) (row_ids s)"
  shows "rows_agree (grid (snd (place_piece s p))) (row_ids (snd (place_piece s p)))"
proof (cases "grid_set (grid s) (row_ids s) (fst p) (snd p) (Some (turn s))")
  case (Inl e)
  with assms show ?thesis by (simp add: place_piece_def)
next
  case (Inr g')
  from grid_set_agree[OF assms Inr] Inr show ?thesis by (simp add: place_piece_def)
qed

lemma place_and_flip_agree:
  assumes "rows_agree (grid s) (row_ids s)"
  shows "rows_agree (grid (snd (place_and_flip s p))) (row_ids (snd (place_and_flip s p)))"
proof -
  obtain r s1 where pl: "place_piece s p = (r, s1)" by (cases "place_piece s p")
  from place_piece_agree[OF assms, of p] pl have a1: "rows_agree (grid s1) (row_ids s1)" by simp
  show ?thesis
  proof (cases "\<not> othello s \<and> p \<in> set (center_pieces s)")
    case True
    with pl a1 show ?thesis by (simp add: place_and_flip_def)
  next
    case False
    show ?thesis
    proof (cases r)
      case (Inl e)
      with False pl a1 show ?thesis by (simp add: place_and_flip_def)
    next
      case r: (Inr u)
      show ?thesis
      proof (cases "retrace s1 p directions")
        case (Inl e)
        with False pl r a1 show ?thesis by (simp add: place_and_flip_def)
      next
        case (Inr rd)
        obtain r' g' where f: "flip_all (grid s1) (row_ids s1) (turn s1) p rd = (r', g')"
          by (cases "flip_all (grid s1) (row_ids s1) (turn s1) p rd")
        from flip_all_agree[OF a1, of "turn s1" p rd] f have "rows_agree g' (row_ids s1)" by simp
        with False pl r Inr f a1 show ?thesis by (simp add: place_and_flip_def)
      qed
    qed
  qed
qed

lemma same_board_agree:
  "same_board s s' \<Longrightarrow> rows_agree (grid s) (row_ids s) \<Longrightarrow> rows_agree (grid s') (row_ids s')"
  using same_board_grid[of s s'] same_board_row_ids[of s s'] by simp

lemma apply_move_agree:
  assumes "rows_agree (grid s) (row_ids s)"
  shows "rows_agree (grid (snd (apply_move s p))) (row_ids (snd (apply_move s p)))"
proof (cases "in_bounds s p")
  case False
  with assms show ?thesis by (simp add: apply_move_def)
next
  case True
  obtain r s1 where pf: "place_and_flip s p = (r, s1)" by (cases "place_and_flip s p")
  with place_and_flip_agree[OF assms, of p] have a1: "rows_agree (grid s1) (row_ids s1)" by simp
  obtain r' s2 where ad: "advance_turn s1 = (r', s2)" by (cases "advance_turn s1")
  with same_board_agree[OF advance_turn_same[of s1] a1]
  have a2: "rows_agree (grid s2) (row_ids s2)" by simp
  from same_board_agree[OF skip_loop_same[of s2] a2]
  have a3: "rows_agree (grid (snd (skip_loop s2))) (row_ids (snd (skip_loop s2)))" .
  from True pf ad a1 a2 a3 show ?thesis
    by (cases r; cases r') (simp_all add: apply_move_def)
qed

lemma distinct_rows_agree: "distinct ids \<Longrightarrow> rows_agree g ids"
  by (simp add: rows_agree_def same_object_distinct)

lemma done_loop_turn: "fst (done_loop (s\<lparr>turn := q\<rparr>) ps nm) = fst (done_loop s ps nm)"
  by (cases ps) (simp_all add: Let_def)

lemma done_prop_turn: "fst (done_prop (s\<lparr>turn := q\<rparr>)) = fst (done_prop s)"
  unfolding done_prop_fst by (simp add: done_loop_turn)

lemma done_prop_turn_after: "fst (done_prop (turn_after s)) = fst (done_prop s)"
  unfolding turn_after_def by (rule done_prop_turn)

lemma shape_ok_turn_after: "shape_ok (turn_after s) = shape_ok s"
  by (simp add: turn_after_def)

lemma done_prop_value:
  assumes "shape_ok s" "players s \<le> side s"
  shows "\<exists>b. done_prop s = (Inr b, s)"
proof -
  from done_prop_total[OF assms] obtain b where b: "fst (done_prop s) = Inr b" by blast
  from done_prop_snd[OF b] b have "done_prop s = (Inr b, s)" by (cases "done_prop s") simp
  then show ?thesis ..
qed

lemma skip_loop_spec:
  "shape_ok s \<Longrightarrow> players s \<le> side s \<Longrightarrow>
     \<exists>k. skip_loop s = (Inr (), (turn_after ^^ k) s)
        \<and> (\<forall>j < k. available_moves ((turn_after ^^ j) s) = Inr [])
        \<and> (available_moves ((turn_after ^^ k) s) \<noteq> Inr [] \<or> fst (done_prop s) = Inr True)
        \<and> (0 < k \<longrightarrow> fst (done_prop s) = Inr False)"
proof (induction s rule: skip_loop.induct)
  case (1 s)
  note shape = "1.prems"(1) and fits = "1.prems"(2)
  from available_moves_filter[OF shape fits] obtain ms where ms: "available_moves s = Inr ms"
    by blast
  from done_prop_value[OF shape fits] obtain b where d: "done_prop s = (Inr b, s)" by blast
  show ?case
  proof (cases "ms = []")
    case False
    with ms have "skip_loop s = (Inr (), s)" by (subst skip_loop.simps) simp
    with ms False show ?thesis by (intro exI[of _ 0]) simp
  next
    case True
    show ?thesis
    proof (cases b)
      case b: True
      with ms True d have "skip_loop s = (Inr (), s)" by (subst skip_loop.simps) simp
      with d b show ?thesis by (intro exI[of _ 0]) simp
    next
      case b: False
      with d have dF: "fst (done_prop s) = Inr False" by simp
      from done_False_players[OF dF] have "players s + 1 \<noteq> 0" by simp
      from advance_turn_eq[OF this] have adv: "advance_turn s = (Inr (), turn_after s)"
        by (simp add: turn_after_def)
      have shape': "shape_ok (turn_after s)" and fits': "players (turn_after s) \<le> side (turn_after s)"
        using shape fits by (simp_all add: turn_after_def)
      from "1.IH"[OF ms True d[symmetric] refl _ adv[symmetric] refl shape' fits'] b
      obtain k where k: "skip_loop (turn_after s) = (Inr (), (turn_after ^^ k) (turn_after s))"
        "\<forall>j < k. available_moves ((turn_after ^^ j) (turn_after s)) = Inr []"
        "available_moves ((turn_after ^^ k) (turn_after s)) \<noteq> Inr []
           \<or> fst (done_prop (turn_after s)) = Inr True"
        by auto
      have step: "(turn_after ^^ j) (turn_after s) = (turn_after ^^ Suc j) s" for j
        by (simp add: funpow_swap1)
      have run: "skip_loop s = (Inr (), (turn_after ^^ Suc k) s)"
        using ms True d b adv k(1) by (subst skip_loop.simps) (simp add: funpow_swap1)
      have before: "\<forall>j < Suc k. available_moves ((turn_after ^^ j) s) = Inr []"
      proof (intro allI impI)
        fix j assume "j < Suc k"
        show "available_moves ((turn_after ^^ j) s) = Inr []"
        proof (cases j)
          case 0
          with ms True show ?thesis by simp
        next
          case (Suc j')
          with \<open>j < Suc k\<close> k(2) have "available_moves ((turn_after ^^ j') (turn_after s)) = Inr []"
            by simp
          with Suc show ?thesis by (simp add: funpow_swap1)
        qed
      qed
      from k(3) dF have last: "available_moves ((turn_after ^^ Suc k) s) \<noteq> Inr []"
        by (simp add: done_prop_turn_after funpow_swap1)
      from run before last dF show ?thesis by (intro exI[of _ "Suc k"]) simp
    qed
  qed
qed

text \<open>\<open>apply_move\<close> on a well-formed board: the state it returns.\<close>

lemma apply_move_result:
  assumes shape: "shape_ok s" and one: "1 \<le> players s" and fits: "players s \<le> side s"
    and inb: "in_bounds s p"
  shows "\<exists>g' k. apply_move s p
             = (Inr (), s\<lparr>grid := g', turn := (next_player (players s) ^^ k)
                                               (next_player (players s) (turn s))\<rparr>)
           \<and> paints (turn s) (grid s) g'
           \<and> (\<forall>j < k. available_moves
                  (s\<lparr>grid := g', turn := (next_player (players s) ^^ j)
                                           (next_player (players s) (turn s))\<rparr>) = Inr [])
           \<and> (available_moves
                  (s\<lparr>grid := g', turn := (next_player (players s) ^^ k)
                                           (next_player (players s) (turn s))\<rparr>) \<noteq> Inr []
                \<or> fst (done_prop (s\<lparr>grid := g'\<rparr>)) = Inr True)
           \<and> (0 < k \<longrightarrow> fst (done_prop (s\<lparr>grid := g'\<rparr>)) = Inr False)"
proof -
  let ?n = "next_player (players s)"
  from place_and_flip_board[OF shape inb]
  obtain g' where g': "place_and_flip s p = (Inr (), s\<lparr>grid := g'\<rparr>)"
    "paints (turn s) (grid s) g'" by blast
  define s1 where "s1 = s\<lparr>grid := g'\<rparr>"
  from paints_shape[OF shape g'(2)]
  have shape1: "shape_ok s1" by (simp add: s1_def)
  have fits1: "players s1 \<le> side s1" using fits by (simp add: s1_def)
  have "players s1 + 1 \<noteq> 0" using one by (simp add: s1_def)
  from advance_turn_eq[OF this] have adv: "advance_turn s1 = (Inr (), turn_after s1)"
    by (simp add: turn_after_def)
  define s2 where "s2 = turn_after s1"
  have shape2: "shape_ok s2" and fits2: "players s2 \<le> side s2"
    using shape1 fits1 by (simp_all add: s2_def turn_after_def)
  from skip_loop_spec[OF shape2 fits2]
  obtain k where k: "skip_loop s2 = (Inr (), (turn_after ^^ k) s2)"
    "\<forall>j < k. available_moves ((turn_after ^^ j) s2) = Inr []"
    "available_moves ((turn_after ^^ k) s2) \<noteq> Inr [] \<or> fst (done_prop s2) = Inr True"
    "0 < k \<longrightarrow> fst (done_prop s2) = Inr False" by blast
  have pow: "(turn_after ^^ j) s2 = s\<lparr>grid := g', turn := (?n ^^ j) (?n (turn s))\<rparr>" for j
    unfolding turn_after_funpow by (simp add: s2_def s1_def turn_after_def)
  have d2: "fst (done_prop s2) = fst (done_prop (s\<lparr>grid := g'\<rparr>))"
    unfolding s2_def by (simp add: done_prop_turn_after s1_def)
  have "apply_move s p = (Inr (), (turn_after ^^ k) s2)"
    using inb g'(1) adv k(1) by (simp add: apply_move_def s1_def s2_def)
  with g'(2) k(2,3,4) show ?thesis
    unfolding pow d2 by blast
qed

lemma cell_at_grid: "grid a = grid b \<Longrightarrow> cell_at a q = cell_at b q"
  by (simp add: cell_at_def)

lemma pieces_at_on_board:
  "pieces_at s sqs = Inr vs \<Longrightarrow> \<forall>sq \<in> set sqs. in_bounds s sq"
proof (induction sqs arbitrary: vs)
  case Nil
  then show ?case by simp
next
  case (Cons sq sqs)
  from Cons.prems obtain v vs' where v: "piece_at s sq = Inr v" "pieces_at s sqs = Inr vs'"
    by (auto split: sum.splits)
  from v(1) have "in_bounds s sq" by (auto simp: piece_at_def split: if_splits)
  with Cons.IH[OF v(2)] show ?case by simp
qed

lemma legal_empty:
  assumes "shape_ok s" "in_bounds s p" "legal_move s p = Inr True"
  shows "cell_at s p = None"
proof (rule ccontr)
  assume "cell_at s p \<noteq> None"
  with assms(2) grid_get_cell_at[OF assms(1,2)] have "legal_move s p = Inr False"
    by (simp add: legal_move_def)
  with assms(3) show False by simp
qed

lemma legal_center_on_board:
  assumes "shape_ok s" "in_bounds s p" "legal_move s p = Inr True"
  shows "\<forall>sq \<in> set (center_pieces s). in_bounds s sq"
proof -
  from legal_empty[OF assms] grid_get_cell_at[OF assms(1,2)]
  have here: "grid_get (grid s) (fst p) (snd p) = Inr None" by simp
  obtain r where r: "pieces_at s (center_pieces s) = r" by blast
  show ?thesis
  proof (cases r)
    case (Inl e)
    with r here assms(2,3) show ?thesis by (simp add: legal_move_def Let_def)
  next
    case (Inr vs)
    with r show ?thesis by (intro pieces_at_on_board[of s _ vs]) simp
  qed
qed

lemma legal_fits:
  assumes "shape_ok s" "in_bounds s p" "legal_move s p = Inr True" "1 \<le> players s"
  shows "players s \<le> side s"
proof (rule ccontr)
  assume "\<not> players s \<le> side s"
  then have neg: "(side s - players s) div 2 < 0" by simp
  from assms(2) have "0 < side s" by (auto simp: in_bounds_def split: prod.splits)
  with neg have "((side s - players s) div 2, (side s - players s) div 2) \<in> set (center_pieces s)"
    unfolding center_pieces_set by simp
  with legal_center_on_board[OF assms(1,2,3)]
  have "in_bounds s ((side s - players s) div 2, (side s - players s) div 2)" by blast
  with neg show False by (simp add: in_bounds_def)
qed

text \<open>
  Claim C10, as amended.  In a state with a \<open>side\<close> by \<open>side\<close> grid whose rows are
  different list objects, at an in-bounds position where \<open>legal_move\<close> returns
  \<open>True\<close>, the engine that \<open>apply_move\<close> leaves has exactly one occupied cell more:
  the placed cell was empty and holds the mover's label; every other cell that changed
  held a piece of another player and holds the mover's label; no occupied cell is empty
  afterwards.  With at least one player the call returns without an exception.  The
  rows are different objects in every engine the constructor builds
  (\<open>Reversi_init_invariant\<close>), and no move changes which rows a grid has
  (\<open>apply_move_row_ids\<close>).
\<close>

theorem apply_move_adds_one:
  assumes shape: "shape_ok s" and rows: "distinct (row_ids s)"
    and inb: "in_bounds s p" and legal: "legal_move s p = Inr True"
  shows "cell_at s p = None
       \<and> cell_at (snd (apply_move s p)) p = Some (turn s)
       \<and> occupied (grid (snd (apply_move s p))) = occupied (grid s) + 1
       \<and> (\<forall>q. in_bounds s q \<and> q \<noteq> p \<and> cell_at (snd (apply_move s p)) q \<noteq> cell_at s q \<longrightarrow>
              (\<exists>v. cell_at s q = Some v \<and> v \<noteq> turn s)
              \<and> cell_at (snd (apply_move s p)) q = Some (turn s))
       \<and> (\<forall>q. in_bounds s q \<and> cell_at s q \<noteq> None \<longrightarrow> cell_at (snd (apply_move s p)) q \<noteq> None)
       \<and> (1 \<le> players s \<longrightarrow> fst (apply_move s p) = Inr ())"
proof -
  let ?t = "turn s"
  define s' where "s' = snd (apply_move s p)"
  define s0 where "s0 = s\<lparr>grid := put_cell (grid s) p (Some ?t)\<rparr>"
  have empty: "cell_at s p = None" by (rule legal_empty[OF shape inb legal])
  have shape0: "shape_ok s0" unfolding s0_def by (rule put_cell_shape[OF shape])
  have flips: "only_flips ?t (grid s0) (grid s')"
    unfolding s0_def s'_def using apply_move_grid[OF shape inb rows] by simp
  have cell0: "cell_at s0 q = (if q = p then Some ?t else cell_at s q)" if "in_bounds s q" for q
    unfolding s0_def by (rule cell_at_put[OF shape that inb])
  have cell': "flip_cell ?t (cell_at s0 q) (cell_at s' q)" if "in_bounds s q" for q
  proof -
    from that have "in_bounds s0 q" by (simp add: s0_def)
    from only_flips_cell[OF shape0 this flips]
    have "flip_cell ?t (cell_at s0 q) (cell_at (s0\<lparr>grid := grid s'\<rparr>) q)" .
    moreover have "cell_at (s0\<lparr>grid := grid s'\<rparr>) q = cell_at s' q"
      by (rule cell_at_grid) simp
    ultimately show ?thesis by simp
  qed
  have placed: "cell_at s' p = Some ?t"
    using cell'[OF inb] cell0[OF inb] by (simp add: flip_cell_mine)
  have count: "occupied (grid s') = occupied (grid s) + 1"
  proof -
    from in_bounds_index[OF shape inb] obtain i j
      where ij: "p = (int i, int j)" "i < length (grid s)" "j < length (grid s ! i)" by blast
    from empty ij(1) have "grid s ! i ! j = None" by (simp add: cell_at_def)
    from occupied_put[OF ij(2,3) this, of "Some ?t"]
    have "occupied (grid s0) = Suc (occupied (grid s))" by (simp add: s0_def ij(1))
    with only_flips_occupied[OF flips] show ?thesis by simp
  qed
  have changed: "(\<exists>v. cell_at s q = Some v \<and> v \<noteq> ?t) \<and> cell_at s' q = Some ?t"
    if "in_bounds s q \<and> q \<noteq> p \<and> cell_at s' q \<noteq> cell_at s q" for q
  proof -
    from that cell0[of q] have "cell_at s0 q = cell_at s q" by simp
    with cell'[of q] that show ?thesis by (auto simp: flip_cell_def)
  qed
  have kept: "cell_at s' q \<noteq> None" if "in_bounds s q \<and> cell_at s q \<noteq> None" for q
  proof (cases "q = p")
    case True
    with placed show ?thesis by simp
  next
    case False
    with that cell0[of q] have "cell_at s0 q = cell_at s q" by simp
    with cell'[of q] that show ?thesis by (auto simp: flip_cell_def)
  qed
  have returns: "fst (apply_move s p) = Inr ()" if one: "1 \<le> players s"
  proof -
    from legal_fits[OF shape inb legal one] have fits: "players s \<le> side s" .
    from apply_move_result[OF shape one fits inb] show ?thesis by auto
  qed
  from empty placed count changed kept returns show ?thesis
    unfolding s'_def by blast
qed

text \<open>The theorem at the Othello start position and the move (4,5), which flips (4,4).\<close>

theorem apply_move_adds_one_witness:
  "occupied (grid othello8) = 4
   \<and> occupied (grid (snd (apply_move othello8 (4, 5)))) = 5
   \<and> cell_at (snd (apply_move othello8 (4, 5))) (4, 5) = Some 1
   \<and> cell_at (snd (apply_move othello8 (4, 5))) (4, 4) = Some 1
   \<and> fst (apply_move othello8 (4, 5)) = Inr ()"
proof -
  have shape: "shape_ok othello8" by (simp add: shape_ok_def othello8_def)
  have rows: "distinct (row_ids othello8)" by (simp add: othello8_def)
  have inb: "in_bounds othello8 (4, 5)" by (simp add: in_bounds_def othello8_def)
  have legal: "legal_move othello8 (4, 5) = Inr True" by code_simp
  have four: "occupied (grid othello8) = 4" by code_simp
  have t: "turn othello8 = 1" and pl: "1 \<le> players othello8" by (simp_all add: othello8_def)
  have flipped: "cell_at (snd (apply_move othello8 (4, 5))) (4, 4) = Some 1" by code_simp
  from apply_move_adds_one[OF shape rows inb legal] four t pl flipped show ?thesis by simp
qed

lemma Reversi_init_start4: "Reversi_init 4 2 True = Inr start4"
  by code_simp

text \<open>
  Claim C10 as stated, for every game state, fails where two slots of the grid hold one
  row.  \<open>load_game\<close> keeps the list it is given; after
  \<open>row = [None, 2, 1, None]; load_game(1, [row] * 4)\<close> on \<open>Reversi(4, 2, True)\<close>
  the four slots are one row object.  The position (0,0) is within the bounds and
  \<open>legal_move\<close> returns \<open>True\<close> there (the ray to the east captures); the placement
  and the flip of (0,1) write to that one row, and the number of occupied cells goes
  from 8 to 12.
\<close>

theorem aliased_rows_counterexample:
  "Reversi_init 4 2 True = Inr start4
   \<and> load_game start4 1 (replicate 4 [None, Some 2, Some 1, None]) [0, 0, 0, 0]
       = (Inr (), alias4)
   \<and> shape_ok alias4
   \<and> in_bounds alias4 (0, 0)
   \<and> legal_move alias4 (0, 0) = Inr True
   \<and> occupied (grid alias4) = 8
   \<and> fst (apply_move alias4 (0, 0)) = Inr ()
   \<and> grid (snd (apply_move alias4 (0, 0))) = replicate 4 [Some 1, Some 1, Some 1, None]
   \<and> occupied (grid (snd (apply_move alias4 (0, 0)))) = 12
   \<and> occupied (grid (snd (apply_move alias4 (0, 0)))) \<noteq> occupied (grid alias4) + 1"
proof -
  have 1: "load_game start4 1 (replicate 4 [None, Some 2, Some 1, None]) [0, 0, 0, 0]
       = (Inr (), alias4)" by code_simp
  have 2: "shape_ok alias4" by (simp add: shape_ok_def alias4_def)
  have 3: "in_bounds alias4 (0, 0)" by code_simp
  have 4: "legal_move alias4 (0, 0) = Inr True" by code_simp
  have 5: "occupied (grid alias4) = 8" by code_simp
  have 6: "fst (apply_move alias4 (0, 0)) = Inr ()" by code_simp
  have 7: "grid (snd (apply_move alias4 (0, 0))) = replicate 4 [Some 1, Some 1, Some 1, None]"
    by code_simp
  have 8: "occupied (replicate 4 [Some (1::int), Some 1, Some 1, None]) = 12" by code_simp
  from 7 8 have 9: "occupied (grid (snd (apply_move alias4 (0, 0)))) = 12" by simp
  with 5 have 10: "occupied (grid (snd (apply_move alias4 (0, 0)))) \<noteq> occupied (grid alias4) + 1"
    by simp
  from Reversi_init_start4 1 2 3 4 5 6 7 9 10 show ?thesis by blast
qed

lemma next_player_wraps:
  assumes "1 \<le> t" "t \<le> P"
  shows "next_player P t = (if t = P then 1 else t + 1)"
proof (cases "t = P")
  case True
  with assms next_player_wrap[of P] show ?thesis by simp
next
  case False
  with assms next_player_succ[of t P] show ?thesis by simp
qed

lemma next_player_funpow_range:
  assumes "1 \<le> P"
  shows "1 \<le> (next_player P ^^ k) (next_player P t) \<and> (next_player P ^^ k) (next_player P t) \<le> P"
  by (induction k) (simp_all add: next_player_range[OF assms])

lemma update_turn_twice: "s\<lparr>grid := g, turn := a\<rparr>\<lparr>turn := b\<rparr> = s\<lparr>grid := g, turn := b\<rparr>"
  by simp

text \<open>
  Claim C3.  In a state with a \<open>side\<close> by \<open>side\<close> grid and \<open>1 \<le> players \<le> side\<close>,
  \<open>apply_move\<close> at an in-bounds position (legal or not) returns, and the turn it leaves
  is the turn moved on once by \<open>next_player\<close> and then \<open>k\<close> times more, where each of
  the \<open>k\<close> players passed has no available move on the new board, and the player reached
  has one or the game is done (in which case \<open>k = 0\<close>).  \<open>next_player\<close> is the
  1-based successor: player \<open>players\<close> is followed by player 1.  In particular, when on
  the new board the mover has a move and no other player has one, the turn is the
  mover's again.
\<close>

theorem apply_move_turn:
  assumes shape: "shape_ok s" and one: "1 \<le> players s" and fits: "players s \<le> side s"
    and inb: "in_bounds s p"
  shows "\<exists>k. fst (apply_move s p) = Inr ()
       \<and> turn (snd (apply_move s p))
           = (next_player (players s) ^^ k) (next_player (players s) (turn s))
       \<and> (\<forall>j < k. available_moves
              ((snd (apply_move s p))\<lparr>turn := (next_player (players s) ^^ j)
                                                 (next_player (players s) (turn s))\<rparr>) = Inr [])
       \<and> (available_moves (snd (apply_move s p)) \<noteq> Inr []
            \<or> fst (done_prop (snd (apply_move s p))) = Inr True)
       \<and> (fst (done_prop (snd (apply_move s p))) = Inr True \<longrightarrow> k = 0)
       \<and> (1 \<le> turn s \<and> turn s \<le> players s \<longrightarrow>
            next_player (players s) (turn s) = (if turn s = players s then 1 else turn s + 1))
       \<and> (1 \<le> turn s \<and> turn s \<le> players s
            \<and> available_moves ((snd (apply_move s p))\<lparr>turn := turn s\<rparr>) \<noteq> Inr []
            \<and> (\<forall>q \<in> {1..players s}. q \<noteq> turn s \<longrightarrow>
                  available_moves ((snd (apply_move s p))\<lparr>turn := q\<rparr>) = Inr []) \<longrightarrow>
            turn (snd (apply_move s p)) = turn s)"
proof -
  let ?n = "next_player (players s)"
  from apply_move_result[OF shape one fits inb]
  obtain g' k where r: "apply_move s p = (Inr (), s\<lparr>grid := g', turn := (?n ^^ k) (?n (turn s))\<rparr>)"
    and before: "\<forall>j < k. available_moves (s\<lparr>grid := g', turn := (?n ^^ j) (?n (turn s))\<rparr>) = Inr []"
    and last: "available_moves (s\<lparr>grid := g', turn := (?n ^^ k) (?n (turn s))\<rparr>) \<noteq> Inr []
        \<or> fst (done_prop (s\<lparr>grid := g'\<rparr>)) = Inr True"
    and pos: "0 < k \<longrightarrow> fst (done_prop (s\<lparr>grid := g'\<rparr>)) = Inr False"
    by blast
  define s' where "s' = snd (apply_move s p)"
  have s': "s' = s\<lparr>grid := g', turn := (?n ^^ k) (?n (turn s))\<rparr>" by (simp add: s'_def r)
  have at: "s'\<lparr>turn := q\<rparr> = s\<lparr>grid := g', turn := q\<rparr>" for q by (simp add: s')
  have d: "fst (done_prop s') = fst (done_prop (s\<lparr>grid := g'\<rparr>))"
    unfolding s' using done_prop_turn[where s = "s\<lparr>grid := g'\<rparr>"] by simp
  have pl: "players s' = players s" by (simp add: s')
  have c1: "fst (apply_move s p) = Inr ()" by (simp add: r)
  have c2: "turn s' = (?n ^^ k) (?n (turn s))" by (simp add: s')
  have c3: "\<forall>j < k. available_moves (s'\<lparr>turn := (?n ^^ j) (?n (turn s))\<rparr>) = Inr []"
    unfolding at using before .
  from last have "available_moves s' \<noteq> Inr [] \<or> fst (done_prop (s\<lparr>grid := g'\<rparr>)) = Inr True"
    unfolding s' .
  then have c4: "available_moves s' \<noteq> Inr [] \<or> fst (done_prop s') = Inr True"
    unfolding d .
  have c5: "fst (done_prop s') = Inr True \<longrightarrow> k = 0"
    using pos unfolding d by auto
  have c6: "1 \<le> turn s \<and> turn s \<le> players s \<longrightarrow>
      ?n (turn s) = (if turn s = players s then 1 else turn s + 1)"
    using next_player_wraps[of "turn s" "players s"] by blast
  have c7: "turn s' = turn s"
    if h: "1 \<le> turn s \<and> turn s \<le> players s
        \<and> available_moves (s'\<lparr>turn := turn s\<rparr>) \<noteq> Inr []
        \<and> (\<forall>q \<in> {1..players s}. q \<noteq> turn s \<longrightarrow> available_moves (s'\<lparr>turn := q\<rparr>) = Inr [])"
  proof (rule ccontr)
    assume ne: "turn s' \<noteq> turn s"
    from next_player_funpow_range[OF one, of k "turn s"] c2
    have range: "turn s' \<in> {1..players s}" by simp
    with h ne have "available_moves (s'\<lparr>turn := turn s'\<rparr>) = Inr []" by blast
    then have none: "available_moves s' = Inr []" by simp
    from h have "\<not> (\<forall>q \<in> {1..players s'}. available_moves (s'\<lparr>turn := q\<rparr>) = Inr [])"
      unfolding pl by auto
    then have "fst (done_prop s') \<noteq> Inr True"
      using done_prop_True_iff[of s'] by simp
    with c4 none show False by simp
  qed
  from c1 c2 c3 c4 c5 c6 c7 show ?thesis
    unfolding s'_def by (intro exI[of _ k]) blast
qed

text \<open>
  The theorem on the 4 by 4 board of the repository's turn-skip test: after player 1's
  move at (2,0) player 2 has no move and player 1 has some, and the turn is 1 again.
\<close>

theorem apply_move_turn_witness:
  "fst (apply_move skip4 (2, 0)) = Inr ()
   \<and> available_moves ((snd (apply_move skip4 (2, 0)))\<lparr>turn := 2\<rparr>) = Inr []
   \<and> available_moves ((snd (apply_move skip4 (2, 0)))\<lparr>turn := 1\<rparr>) = Inr [(2, 3), (3, 2), (3, 3)]
   \<and> turn (snd (apply_move skip4 (2, 0))) = 1"
proof -
  have shape: "shape_ok skip4" by (simp add: shape_ok_def skip4_def)
  have one: "1 \<le> players skip4" and fits: "players skip4 \<le> side skip4"
    and inb: "in_bounds skip4 (2, 0)"
    by (simp_all add: skip4_def in_bounds_def)
  have t: "turn skip4 = 1" and pl: "players skip4 = 2" by (simp_all add: skip4_def)
  have m2: "available_moves ((snd (apply_move skip4 (2, 0)))\<lparr>turn := 2\<rparr>) = Inr []"
    by code_simp
  have m1: "available_moves ((snd (apply_move skip4 (2, 0)))\<lparr>turn := 1\<rparr>)
      = Inr [(2, 3), (3, 2), (3, 3)]"
    by code_simp
  have set: "{1..players skip4} = {1, 2}" unfolding pl by auto
  from apply_move_turn[OF shape one fits inb] m1 m2
  have "fst (apply_move skip4 (2, 0)) = Inr () \<and> turn (snd (apply_move skip4 (2, 0))) = 1"
    unfolding set t by (auto simp: pl)
  with m1 m2 show ?thesis by blast
qed

subsection \<open>The receiver of \<open>simulate_moves\<close>\<close>

lemma keeps_refl: "keeps self h h"
  by (simp add: keeps_def)

lemma keeps_trans: "keeps self h1 h2 \<Longrightarrow> keeps self h2 h3 \<Longrightarrow> keeps self h1 h3"
  by (simp add: keeps_def)

lemma keeps_view: "keeps self h h' \<Longrightarrow> view h' self = view h self"
  by (simp add: keeps_def view_def)

lemma keeps_allocated: "keeps self h h' \<Longrightarrow> allocated h self \<Longrightarrow> allocated h' self"
  by (auto simp: keeps_def allocated_def)

lemma alloc_list_keeps:
  assumes "allocated h self" "alloc_list h g ids = (gr, h')"
  shows "keeps self h h' \<and> gr = fresh h \<and> objs h' = objs h \<and> fresh h' = Suc (fresh h)"
  using assms by (auto simp: alloc_list_def keeps_def allocated_def)

lemma alloc_obj_keeps:
  assumes "allocated h self" "alloc_obj h ob = (a, h')"
  shows "keeps self h h' \<and> a = fresh h \<and> objs h' a = ob \<and> fresh h' = Suc (fresh h)"
  using assms by (auto simp: alloc_obj_def keeps_def allocated_def)

lemma h_Reversi_keeps:
  assumes al: "allocated h self" and r: "h_Reversi h sd pl oth = (r, h')"
  shows "keeps self h h' \<and> (\<forall>sim. r = Inr sim \<longrightarrow> apart h' self sim \<and> allocated h' sim)"
proof (cases "Reversi_init sd pl oth")
  case (Inl e)
  with r show ?thesis by (auto simp: h_Reversi_def keeps_refl)
next
  case (Inr s)
  obtain gr h1 where a1: "alloc_list h (grid s) (row_ids s) = (gr, h1)"
    by (cases "alloc_list h (grid s) (row_ids s)")
  let ?ob = "\<lparr>o_side = sd, o_players = pl, o_othello = oth, o_grid = gr, o_turn = turn s\<rparr>"
  obtain a h2 where a2: "alloc_obj h1 ?ob = (a, h2)" by (cases "alloc_obj h1 ?ob")
  from alloc_list_keeps[OF al a1] have k1: "keeps self h h1" and gr: "gr = fresh h"
    and f1: "fresh h1 = Suc (fresh h)" by simp_all
  from keeps_allocated[OF k1 al] have al1: "allocated h1 self" .
  from alloc_obj_keeps[OF al1 a2] have k2: "keeps self h1 h2" and a: "a = fresh h1"
    and ob: "objs h2 a = ?ob" and f2: "fresh h2 = Suc (fresh h1)" by blast+
  from r Inr a1 a2 have res: "r = Inr a" "h' = h2" by (simp_all add: h_Reversi_def)
  note k = keeps_trans[OF k1 k2]
  from al have "self < fresh h" "o_grid (objs h self) < fresh h" by (simp_all add: allocated_def)
  moreover from k have "objs h2 self = objs h self" by (simp add: keeps_def)
  ultimately have "apart h2 self a" "allocated h2 a"
    using a f1 f2 gr ob by (simp_all add: apart_def allocated_def)
  with k res show ?thesis by simp
qed

lemma h_grid_keeps:
  assumes al: "allocated h self" and sim: "allocated h sim" and ap: "apart h self sim"
    and g: "h_grid h a = (gr, h')"
  shows "keeps self h h' \<and> allocated h' sim \<and> apart h' self sim \<and> objs h' = objs h
       \<and> gr = fresh h \<and> lists h' (o_grid (objs h sim)) = lists h (o_grid (objs h sim))"
  using assms by (auto simp: h_grid_def alloc_list_def keeps_def allocated_def apart_def)

lemma store_back_keeps:
  assumes "apart h self sim"
  shows "keeps self h (store_back h sim s)"
  using assms by (simp add: store_back_def keeps_def apart_def)

lemma h_apply_move_keeps:
  assumes al: "allocated h self" and sim: "allocated h sim" and ap: "apart h self sim"
    and r: "h_apply_move h sim p = (r, h')"
  shows "keeps self h h' \<and> allocated h' sim \<and> apart h' self sim"
proof -
  obtain r0 s' where a: "apply_move (view h sim) p = (r0, s')" by (cases "apply_move (view h sim) p")
  with r have h': "h' = store_back h sim s'" by (simp add: h_apply_move_def)
  from store_back_keeps[OF ap] have "keeps self h h'" unfolding h' .
  moreover have "allocated h' sim" using sim by (simp add: h' store_back_def allocated_def)
  moreover have "apart h' self sim" using ap by (simp add: h' store_back_def apart_def)
  ultimately show ?thesis by simp
qed

lemma sim_loop_keeps:
  "allocated h self \<Longrightarrow> allocated h sim \<Longrightarrow> apart h self sim \<Longrightarrow>
     keeps self h (snd (sim_loop h self sim moves))"
proof (induction moves arbitrary: h)
  case Nil
  then show ?case by (simp add: keeps_refl)
next
  case (Cons move moves)
  note al = Cons.prems(1) and sim = Cons.prems(2) and ap = Cons.prems(3)
  show ?case
  proof (cases "in_bounds (view h self) move")
    case False
    then show ?thesis by (simp add: keeps_refl)
  next
    case True
    obtain gr h1 where g: "h_grid h sim = (gr, h1)" by (cases "h_grid h sim")
    from h_grid_keeps[OF al sim ap g] have k1: "keeps self h h1" and sim1: "allocated h1 sim"
      and ap1: "apart h1 self sim" by simp_all
    note al1 = keeps_allocated[OF k1 al]
    show ?thesis
    proof (cases "grid_get (lists h1 gr) (fst move) (snd move)")
      case (Inl e)
      with True g k1 show ?thesis by simp
    next
      case (Inr here)
      show ?thesis
      proof (cases "here \<noteq> None")
        case occupied: True
        with True g Inr k1 show ?thesis by simp
      next
        case False
        obtain r h2 where m: "h_apply_move h1 sim move = (r, h2)"
          by (cases "h_apply_move h1 sim move")
        from h_apply_move_keeps[OF al1 sim1 ap1 m] have k2: "keeps self h1 h2"
          and sim2: "allocated h2 sim" and ap2: "apart h2 self sim" by simp_all
        note k12 = keeps_trans[OF k1 k2]
        show ?thesis
        proof (cases r)
          case (Inl e)
          with True g Inr False m k12 show ?thesis by simp
        next
          case r: (Inr u)
          from Cons.IH[OF keeps_allocated[OF k12 al] sim2 ap2]
          have "keeps self h2 (snd (sim_loop h2 self sim moves))" .
          from keeps_trans[OF k12 this] True g Inr False m r show ?thesis by simp
        qed
      qed
    qed
  qed
qed

lemma h_load_game_keeps:
  assumes al: "allocated h self" and sim: "allocated h sim" and ap: "sim \<noteq> self"
    and gr: "gr < fresh h" "gr \<noteq> o_grid (objs h self)"
    and r: "h_load_game h sim t gr = (r, h')"
  shows "keeps self h h' \<and> (r = Inr () \<longrightarrow> allocated h' sim \<and> apart h' self sim)"
proof -
  obtain r0 s' where l: "load_game (view h sim) t (lists h gr) (row_refs h gr) = (r0, s')"
    by (cases "load_game (view h sim) t (lists h gr) (row_refs h gr)")
  show ?thesis
  proof (cases r0)
    case (Inl e)
    with r l show ?thesis by (auto simp: h_load_game_def keeps_refl)
  next
    case (Inr u)
    with r l have "r = Inr ()"
      and h': "h' = h\<lparr>objs := (objs h)(sim := (objs h sim)\<lparr>o_turn := t, o_grid := gr\<rparr>)\<rparr>"
      by (simp_all add: h_load_game_def)
    from h' ap have "keeps self h h'" by (simp add: keeps_def)
    moreover from h' sim gr(1) have "allocated h' sim" by (simp add: allocated_def)
    moreover from h' ap gr(2) have "apart h' self sim" by (simp add: apart_def)
    ultimately show ?thesis by simp
  qed
qed

lemma simulate_moves_keeps:
  assumes al: "allocated h self"
  shows "keeps self h (snd (simulate_moves h self moves))"
proof -
  let ?o = "objs h self"
  obtain r1 h1 where c: "h_Reversi h (o_side ?o) (o_players ?o) (o_othello ?o) = (r1, h1)"
    by (cases "h_Reversi h (o_side ?o) (o_players ?o) (o_othello ?o)")
  from h_Reversi_keeps[OF al c] have k1: "keeps self h h1"
    and new: "\<forall>sim. r1 = Inr sim \<longrightarrow> apart h1 self sim \<and> allocated h1 sim" by simp_all
  note al1 = keeps_allocated[OF k1 al]
  show ?thesis
  proof (cases r1)
    case (Inl e)
    with c k1 show ?thesis by (simp add: simulate_moves_def)
  next
    case (Inr sim)
    with new have ap1: "apart h1 self sim" and sim1: "allocated h1 sim" by simp_all
    obtain gr h2 where g: "h_grid h1 self = (gr, h2)" by (cases "h_grid h1 self")
    from h_grid_keeps[OF al1 sim1 ap1 g] have k2: "keeps self h1 h2" and sim2: "allocated h2 sim"
      and ap2: "apart h2 self sim" and gr: "gr = fresh h1" by simp_all
    note al2 = keeps_allocated[OF k2 al1]
    from g gr have f2: "fresh h2 = Suc (fresh h1)" by (auto simp: h_grid_def alloc_list_def)
    from al1 k2 have "o_grid (objs h2 self) < fresh h1" by (simp add: allocated_def keeps_def)
    with gr f2 have gr2: "gr < fresh h2" "gr \<noteq> o_grid (objs h2 self)" by simp_all
    from ap2 have ne: "sim \<noteq> self" by (simp add: apart_def)
    obtain r3 h3 where l: "h_load_game h2 sim (o_turn (objs h2 self)) gr = (r3, h3)"
      by (cases "h_load_game h2 sim (o_turn (objs h2 self)) gr")
    from h_load_game_keeps[OF al2 sim2 ne gr2 l] have k3: "keeps self h2 h3"
      and ok3: "r3 = Inr () \<longrightarrow> allocated h3 sim \<and> apart h3 self sim" by simp_all
    note k123 = keeps_trans[OF keeps_trans[OF k1 k2] k3]
    show ?thesis
    proof (cases r3)
      case (Inl e)
      with c Inr g l k123 show ?thesis by (simp add: simulate_moves_def)
    next
      case r3: (Inr u)
      with ok3 have sim3: "allocated h3 sim" and ap3: "apart h3 self sim" by simp_all
      from sim_loop_keeps[OF keeps_allocated[OF k123 al] sim3 ap3]
      have "keeps self h3 (snd (sim_loop h3 self sim moves))" .
      from keeps_trans[OF k123 this]
      have k: "keeps self h (snd (sim_loop h3 self sim moves))" .
      obtain r4 h4 where s: "sim_loop h3 self sim moves = (r4, h4)"
        by (cases "sim_loop h3 self sim moves")
      with k have "keeps self h h4" by simp
      with c Inr g l r3 s show ?thesis by (cases r4) (simp_all add: simulate_moves_def)
    qed
  qed
qed

text \<open>
  Claim C4.  For every store in which the receiver and its grid list are allocated, and
  every list of positions, the receiver as \<open>view\<close> reads it (its \<open>grid\<close>, its
  \<open>turn\<close> and its configuration) is the same after \<open>simulate_moves\<close> as before,
  whatever the call returns: a new engine, or the \<open>ValueError\<close> of a position out of
  bounds or of an occupied cell, or any other exception.
\<close>

theorem simulate_moves_frame:
  assumes "allocated h self"
  shows "view (snd (simulate_moves h self moves)) self = view h self
       \<and> grid (view (snd (simulate_moves h self moves)) self) = grid (view h self)
       \<and> turn (view (snd (simulate_moves h self moves)) self) = turn (view h self)"
  using keeps_view[OF simulate_moves_keeps[OF assms, of moves]] by simp

text \<open>
  The theorem in a store that holds the Othello start position as object 0 with its grid
  in list 1: a simulation that succeeds, one that fails out of bounds after a first move
  was applied to the copy, and one that fails on an occupied cell.
\<close>

theorem simulate_moves_frame_witness:
  "view heap0 0 = othello8
   \<and> fst (simulate_moves heap0 0 [(2, 3)]) = Inr 3
   \<and> view (snd (simulate_moves heap0 0 [(2, 3)])) 0 = othello8
   \<and> turn (view (snd (simulate_moves heap0 0 [(2, 3)])) 3) = 2
   \<and> fst (simulate_moves heap0 0 [(2, 3), (9, 9)]) = Inl (ValueError msg_sim_bounds)
   \<and> view (snd (simulate_moves heap0 0 [(2, 3), (9, 9)])) 0 = othello8
   \<and> fst (simulate_moves heap0 0 [(3, 3)]) = Inl (ValueError msg_occupied)
   \<and> view (snd (simulate_moves heap0 0 [(3, 3)])) 0 = othello8"
proof -
  have al: "allocated heap0 0" by (simp add: allocated_def heap0_def)
  have v: "view heap0 0 = othello8" by (simp add: view_def heap0_def othello8_def)
  have a: "fst (simulate_moves heap0 0 [(2, 3)]) = Inr 3" by code_simp
  have a': "turn (view (snd (simulate_moves heap0 0 [(2, 3)])) 3) = 2" by code_simp
  have b: "fst (simulate_moves heap0 0 [(2, 3), (9, 9)]) = Inl (ValueError msg_sim_bounds)"
    by code_simp
  have c: "fst (simulate_moves heap0 0 [(3, 3)]) = Inl (ValueError msg_occupied)" by code_simp
  from simulate_moves_frame[OF al, of "[(2, 3)]"] simulate_moves_frame[OF al, of "[(2, 3), (9, 9)]"]
    simulate_moves_frame[OF al, of "[(3, 3)]"] v a a' b c
  show ?thesis by simp
qed

subsection \<open>The shape of the grid through the operations\<close>

text \<open>
  What does hold of claim C8: the constructor yields a \<open>side\<close> by \<open>side\<close> grid of
  valid labels, \<open>apply_move\<close> keeps it, and \<open>load_game\<close> keeps it when the rows
  it is given have length \<open>side\<close>, which it does not check.
\<close>

lemma labels_ok_iff:
  assumes "shape_ok s"
  shows "labels_ok s \<longleftrightarrow> (\<forall>q. in_bounds s q \<longrightarrow> valid_item (players s) (cell_at s q))"
proof
  assume l: "labels_ok s"
  show "\<forall>q. in_bounds s q \<longrightarrow> valid_item (players s) (cell_at s q)"
  proof (intro allI impI)
    fix q assume "in_bounds s q"
    from in_bounds_index[OF assms this] obtain i j
      where ij: "q = (int i, int j)" "i < length (grid s)" "j < length (grid s ! i)" by blast
    then have "grid s ! i \<in> set (grid s)" "grid s ! i ! j \<in> set (grid s ! i)" by simp_all
    with l have "valid_item (players s) (grid s ! i ! j)" unfolding labels_ok_def by blast
    then show "valid_item (players s) (cell_at s q)" by (simp add: cell_at_def ij(1))
  qed
next
  assume a: "\<forall>q. in_bounds s q \<longrightarrow> valid_item (players s) (cell_at s q)"
  show "labels_ok s"
    unfolding labels_ok_def
  proof (intro ballI)
    fix row item assume "row \<in> set (grid s)" "item \<in> set row"
    then obtain i j where ij: "i < length (grid s)" "row = grid s ! i" "j < length row"
      "item = row ! j" by (auto simp: in_set_conv_nth)
    then have "int i < side s \<and> int j < side s"
      using shape_ok_index[OF assms, of i j] by simp
    then have "in_bounds s (int i, int j)" by (simp add: in_bounds_def)
    with a have "valid_item (players s) (cell_at s (int i, int j))" by blast
    with ij show "valid_item (players s) item" by (simp add: cell_at_def)
  qed
qed

lemma paint_cell_valid:
  "paint_cell t c c' \<Longrightarrow> valid_item pl c \<Longrightarrow> 1 \<le> t \<Longrightarrow> t \<le> pl \<Longrightarrow> valid_item pl c'"
  by (auto simp: paint_cell_def valid_item_def)

lemma paints_labels:
  assumes shape: "shape_ok s" and labels: "labels_ok s" and writes: "paints t (grid s) g'"
    and t: "1 \<le> t" "t \<le> players s"
  shows "labels_ok (s\<lparr>grid := g'\<rparr>)"
proof -
  have shape': "shape_ok (s\<lparr>grid := g'\<rparr>)" by (rule paints_shape[OF shape writes])
  have "valid_item (players s) (cell_at (s\<lparr>grid := g'\<rparr>) q)" if "in_bounds s q" for q
  proof -
    from labels that have "valid_item (players s) (cell_at s q)"
      unfolding labels_ok_iff[OF shape] by blast
    from paint_cell_valid[OF paints_cell[OF shape that writes] this t] show ?thesis .
  qed
  then show ?thesis unfolding labels_ok_iff[OF shape'] by simp
qed

lemma put_cell_labels:
  assumes shape: "shape_ok s" and labels: "labels_ok s" and inb: "in_bounds s x"
    and v: "valid_item (players s) v"
  shows "labels_ok (s\<lparr>grid := put_cell (grid s) x v\<rparr>)"
proof -
  have shape': "shape_ok (s\<lparr>grid := put_cell (grid s) x v\<rparr>)" by (rule put_cell_shape[OF shape])
  have "valid_item (players s) (cell_at (s\<lparr>grid := put_cell (grid s) x v\<rparr>) q)"
    if "in_bounds s q" for q
  proof -
    from labels that have "valid_item (players s) (cell_at s q)"
      unfolding labels_ok_iff[OF shape] by blast
    with v show ?thesis unfolding cell_at_put[OF shape that inb] by simp
  qed
  then show ?thesis unfolding labels_ok_iff[OF shape'] by simp
qed

lemma apply_move_out_of_bounds:
  "\<not> in_bounds s p \<Longrightarrow> apply_move s p = (Inl (ValueError msg_bounds), s)"
  by (simp add: apply_move_def)

lemma apply_move_invariant:
  assumes shape: "shape_ok s" and labels: "labels_ok s"
    and turn: "1 \<le> turn s" "turn s \<le> players s" and fits: "players s \<le> side s"
    and inb: "in_bounds s p"
  shows "shape_ok (snd (apply_move s p)) \<and> labels_ok (snd (apply_move s p))
       \<and> 1 \<le> turn (snd (apply_move s p)) \<and> turn (snd (apply_move s p)) \<le> players s
       \<and> side (snd (apply_move s p)) = side s \<and> players (snd (apply_move s p)) = players s"
proof -
  let ?t = "turn s" and ?n = "next_player (players s)"
  from turn have one: "1 \<le> players s" by simp
  from apply_move_result[OF shape one fits inb]
  obtain g' k where r: "apply_move s p = (Inr (), s\<lparr>grid := g', turn := (?n ^^ k) (?n ?t)\<rparr>)"
    and writes: "paints ?t (grid s) g'" by blast
  from paints_shape[OF shape writes] have "shape_ok (s\<lparr>grid := g'\<rparr>)" .
  then have a: "shape_ok (s\<lparr>grid := g', turn := (?n ^^ k) (?n ?t)\<rparr>)" by (simp add: shape_ok_def)
  from paints_labels[OF shape labels writes turn] have "labels_ok (s\<lparr>grid := g'\<rparr>)" .
  then have b: "labels_ok (s\<lparr>grid := g', turn := (?n ^^ k) (?n ?t)\<rparr>)" by (simp add: labels_ok_def)
  from next_player_funpow_range[OF one, of k ?t] a b show ?thesis by (simp add: r)
qed

lemma Reversi_init_invariant:
  assumes "Reversi_init sd pl oth = Inr s"
  shows "shape_ok s \<and> labels_ok s \<and> side s = sd \<and> players s = pl \<and> turn s = 1
       \<and> distinct (row_ids s)"
proof -
  define g where "g = replicate (nat sd) (replicate (nat sd) (None :: cell))"
  define ids where "ids = [0..<nat sd]"
  define e where "e = \<lparr>side = sd, players = pl, othello = oth, grid = g, turn = 1, row_ids = ids\<rparr>"
  have rows: "distinct ids" by (simp add: ids_def)
  from assms have big: "3 \<le> sd"
    by (auto simp: Reversi_init_def Let_def split: if_splits)
  then have shape_e: "shape_ok e" by (simp add: e_def g_def shape_ok_def)
  have labels_e: "labels_ok e" by (simp add: e_def g_def labels_ok_def valid_item_def)
  show ?thesis
  proof (cases oth)
    case False
    with assms have "s = e"
      by (auto simp: Reversi_init_def Let_def e_def g_def ids_def split: if_splits)
    with shape_e labels_e rows show ?thesis by (simp add: e_def)
  next
    case True
    with assms have pl: "pl = 2" by (auto simp: Reversi_init_def Let_def split: if_splits)
    define b where "b = sd div 2"
    from big have b: "1 \<le> b" "b < sd" by (simp_all add: b_def)
    define e1 where "e1 = e\<lparr>grid := put_cell (grid e) (b, b) (Some 2)\<rparr>"
    define e2 where "e2 = e1\<lparr>grid := put_cell (grid e1) (b - 1, b) (Some 1)\<rparr>"
    define e3 where "e3 = e2\<lparr>grid := put_cell (grid e2) (b - 1, b - 1) (Some 2)\<rparr>"
    define e4 where "e4 = e3\<lparr>grid := put_cell (grid e3) (b, b - 1) (Some 1)\<rparr>"
    have conf: "side e = sd" "players e = 2" by (simp_all add: e_def pl)
    have inb: "in_bounds x (b, b)" "in_bounds x (b - 1, b)" "in_bounds x (b - 1, b - 1)"
      "in_bounds x (b, b - 1)" if "side x = sd" for x
      using b that by (simp_all add: in_bounds_def)
    have v: "valid_item 2 (Some 1)" "valid_item 2 (Some 2)" by (simp_all add: valid_item_def)
    have s1: "shape_ok e1" "labels_ok e1" "side e1 = sd" "players e1 = 2"
      unfolding e1_def using put_cell_shape[OF shape_e] put_cell_labels[OF shape_e labels_e inb(1)] v conf
      by simp_all
    have s2: "shape_ok e2" "labels_ok e2" "side e2 = sd" "players e2 = 2"
      unfolding e2_def using put_cell_shape[OF s1(1)] put_cell_labels[OF s1(1,2) inb(2)] v s1(3,4)
      by simp_all
    have s3: "shape_ok e3" "labels_ok e3" "side e3 = sd" "players e3 = 2"
      unfolding e3_def using put_cell_shape[OF s2(1)] put_cell_labels[OF s2(1,2) inb(3)] v s2(3,4)
      by simp_all
    have s4: "shape_ok e4" "labels_ok e4" "side e4 = sd" "players e4 = 2"
      unfolding e4_def using put_cell_shape[OF s3(1)] put_cell_labels[OF s3(1,2) inb(4)] v s3(3,4)
      by simp_all
    have c1: "grid_set g ids b b (Some 2) = Inr (grid e1)"
      using grid_set_cell[OF shape_e inb(1)[OF conf(1)] rows, of "Some 2"] by (simp add: e1_def e_def)
    have c2: "grid_set (grid e1) ids (b - 1) b (Some 1) = Inr (grid e2)"
      using grid_set_cell[OF s1(1) inb(2)[OF s1(3)] rows, of "Some 1"] by (simp add: e2_def)
    have c3: "grid_set (grid e2) ids (b - 1) (b - 1) (Some 2) = Inr (grid e3)"
      using grid_set_cell[OF s2(1) inb(3)[OF s2(3)] rows, of "Some 2"] by (simp add: e3_def)
    have c4: "grid_set (grid e3) ids b (b - 1) (Some 1) = Inr (grid e4)"
      using grid_set_cell[OF s3(1) inb(4)[OF s3(3)] rows, of "Some 1"] by (simp add: e4_def)
    have "set_cells g ids [((b, b), Some 2), ((b - 1, b), Some 1), ((b - 1, b - 1), Some 2),
        ((b, b - 1), Some 1)] = Inr (grid e4)"
      by (simp add: c1 c2 c3 c4)
    with assms True pl
    have "s = \<lparr>side = sd, players = pl, othello = oth, grid = grid e4, turn = 1, row_ids = ids\<rparr>"
      by (auto simp: Reversi_init_def Let_def g_def b_def ids_def split: if_splits)
    also have "\<dots> = e4" by (simp add: e4_def e3_def e2_def e1_def e_def)
    finally have "s = e4" .
    with s4 pl rows show ?thesis by (simp add: e4_def e3_def e2_def e1_def e_def)
  qed
qed

lemma load_game_invariant:
  assumes ok: "load_game s t g ids = (Inr (), s')"
    and rows: "int (length (grid s)) = side s"
    and width: "\<forall>row \<in> set g. int (length row) = side s"
  shows "shape_ok s' \<and> labels_ok s' \<and> 1 \<le> turn s' \<and> turn s' \<le> players s'"
proof -
  from ok have t: "1 \<le> t" "t \<le> players s" and len: "length g = length (grid s)"
    and items: "\<not> list_ex (\<lambda>row. list_ex (bad_item (players s)) row) g"
    and s': "s' = s\<lparr>turn := t, grid := g, row_ids := ids\<rparr>"
    by (auto simp: load_game_def split: if_splits)
  from len rows width have "shape_ok s'" by (simp add: s' shape_ok_def)
  moreover from items have "labels_ok s'"
    unfolding list_ex_bad_item by (simp add: s' labels_ok_def)
  ultimately show ?thesis using t by (simp add: s')
qed

text \<open>
  Claim C8 (every reachable grid is \<open>side\<close> by \<open>side\<close>) fails in \<open>load_game\<close>: the call
  below is accepted (the row count is 8, every item is \<open>None\<close>), and the engine is left
  with 8 rows of 7 cells while \<open>side\<close> is 8.  The position (0,7) is within the bounds;
  reading it, and moving there, raises \<open>IndexError\<close>.
\<close>

theorem load_game_ragged:
  "load_game othello8 1 (replicate 8 (replicate 7 None)) [0..<8]
     = (Inr (), othello8\<lparr>turn := 1, grid := replicate 8 (replicate 7 None),
                           row_ids := [0..<8]\<rparr>)
   \<and> side (snd (load_game othello8 1 (replicate 8 (replicate 7 None)) [0..<8])) = 8
   \<and> map length (grid (snd (load_game othello8 1 (replicate 8 (replicate 7 None)) [0..<8])))
       = [7, 7, 7, 7, 7, 7, 7, 7]
   \<and> in_bounds (snd (load_game othello8 1 (replicate 8 (replicate 7 None)) [0..<8])) (0, 7)
   \<and> piece_at (snd (load_game othello8 1 (replicate 8 (replicate 7 None)) [0..<8])) (0, 7)
       = Inl IndexError
   \<and> fst (apply_move (snd (load_game othello8 1 (replicate 8 (replicate 7 None)) [0..<8]))
            (0, 7))
       = Inl IndexError"
proof -
  let ?s = "othello8\<lparr>turn := 1, grid := replicate 8 (replicate 7 None), row_ids := [0..<8]\<rparr>"
  have a: "load_game othello8 1 (replicate 8 (replicate 7 None)) [0..<8] = (Inr (), ?s)"
    by code_simp
  have b: "side ?s = 8" by (simp add: othello8_def)
  have c: "map length (grid ?s) = [7, 7, 7, 7, 7, 7, 7, 7]" by code_simp
  have d: "in_bounds ?s (0, 7)" by code_simp
  have e: "piece_at ?s (0, 7) = Inl IndexError" by code_simp
  have f: "fst (apply_move ?s (0, 7)) = Inl IndexError" by code_simp
  from a b c d e f show ?thesis by simp
qed

end
